theory Spec2Isabelle
  imports Main
begin

section \<open>Threads, callables and program points\<close>

text \<open>
  The three timer classes of the repository (\<^verbatim>\<open>Cpp_Timers\<close> in cpp_timers.h, and the
  restart-aware and the stopped-flag \<^verbatim>\<open>async_timers::instance\<close> in async_timers.hpp)
  are modelled as interleaving transition systems.  One transition is one access to
  the shared state of the object: a load or store of a flag, the acquisition or release
  of a mutex, the blocking or the waking of a condition-variable wait.  Accesses are
  sequentially consistent.  Console output (\<^verbatim>\<open>DEBUG_MODE\<close>) is left out.
\<close>

datatype thread_id = Caller nat | Task nat

text \<open>What one invocation of the user's callable does: it returns a value or throws.\<close>

datatype 'r outcome = Value 'r | Throws

text \<open>The callable, as a function of the number of invocations the task made before.\<close>

type_synonym 'r callable = "nat \<Rightarrow> 'r outcome"

text \<open>Which lambda a task launched by \<^verbatim>\<open>std::async\<close> runs.\<close>

datatype body = Loop | OneShot | Periodic

text \<open>
  Program points of a task.  The points \<open>Clock*\<close> lie inside \<^verbatim>\<open>clock(duration)\<close>; the
  deadline \<^verbatim>\<open>now + duration\<close> is a local of that call and is carried by the points
  that still need it.  The points \<open>Wait*\<close> are the lambda's wait for the clock's flag.
\<close>

datatype 'r pc =
    ClockLock           \<comment> \<open>\<^verbatim>\<open>std::unique_lock lock(wait_cond_mutex)\<close>\<close>
  | ClockNow            \<comment> \<open>\<^verbatim>\<open>auto now = system_clock::now()\<close>\<close>
  | ClockWait int       \<comment> \<open>\<^verbatim>\<open>wait_until\<close>: the predicate is evaluated, or the wait begins\<close>
  | ClockBlocked int    \<comment> \<open>blocked in the timed wait, mutex released\<close>
  | ClockTimedOut       \<comment> \<open>the deadline passed; the mutex is taken again\<close>
  | ClockWoken int      \<comment> \<open>woken before the deadline; the mutex is taken again\<close>
  | ClockSet            \<comment> \<open>the elapsed flag is set\<close>
  | ClockUnlock         \<comment> \<open>\<^verbatim>\<open>lock.unlock()\<close>\<close>
  | ClockNotify         \<comment> \<open>\<^verbatim>\<open>wait_cond.notify_one()\<close>\<close>
  | WaitLock            \<comment> \<open>\<^verbatim>\<open>std::unique_lock lock(wait_cond_mutex)\<close> in the lambda\<close>
  | WaitPred            \<comment> \<open>\<^verbatim>\<open>wait_cond.wait(lock, pred)\<close>: the predicate is evaluated\<close>
  | WaitBlocked         \<comment> \<open>blocked in the wait, mutex released\<close>
  | WaitWoken           \<comment> \<open>woken; the mutex is taken again\<close>
  | WaitUnlock          \<comment> \<open>end of the block: the lock is released\<close>
  | InitFlag            \<comment> \<open>\<^verbatim>\<open>stop_flag = true\<close> (Cpp_Timers::start_periodic)\<close>
  | LoopTest            \<comment> \<open>the condition of the \<^verbatim>\<open>while\<close>\<close>
  | CheckFlag           \<comment> \<open>the test of the stop flag after the wait\<close>
  | Invoke              \<comment> \<open>\<^verbatim>\<open>std::invoke(f, args...)\<close> is entered\<close>
  | Invoking            \<comment> \<open>the callable runs; it returns or throws\<close>
  | CheckSingleShot     \<comment> \<open>\<^verbatim>\<open>if (is_single_shot.load())\<close>\<close>
  | ExitLock            \<comment> \<open>\<^verbatim>\<open>std::lock_guard lk(running_cond_mutex)\<close>\<close>
  | ExitSet             \<comment> \<open>\<^verbatim>\<open>finished_waiting_for_stop = true\<close>\<close>
  | ExitNotify          \<comment> \<open>\<^verbatim>\<open>running_cond.notify_one()\<close>\<close>
  | ExitStore           \<comment> \<open>\<^verbatim>\<open>is_running.store(false)\<close>\<close>
  | Return              \<comment> \<open>\<^verbatim>\<open>return last_return_of_callable\<close>\<close>
  | Returned 'r         \<comment> \<open>the future holds a value\<close>
  | Raised              \<comment> \<open>the future holds the callable's exception\<close>

record 'r task =
  pc :: "'r pc"
  body :: body
  duration :: int
  callable :: "'r callable"
  default_result :: 'r
  last_return_of_callable :: 'r
  invoked :: nat

text \<open>
  What every class shares: the system clock, the mutex of \<^verbatim>\<open>wait_cond\<close>, the tasks
  launched by \<^verbatim>\<open>std::async\<close> in launch order (a future is the index of its task), and,
  as instrumentation, the log of the tasks that entered their callable.
\<close>

record 'r world =
  sys_now :: int
  wait_cond_mutex :: "thread_id option"
  tasks :: "'r task list"
  calls :: "nat list"

text \<open>
  The events of an execution: the clock advances (\<open>Tick\<close>), a task or a calling thread
  performs its next action (\<open>Step\<close>, \<open>CallerStep\<close>), a timed wait reaches its deadline
  (\<open>Timeout\<close>), a blocked thread is woken (\<open>Wakeup\<close>), or a thread calls one of the
  public operations.  A \<open>Wakeup\<close> stands for a notification as well as for a spurious
  wake-up, which \<^verbatim>\<open>std::condition_variable\<close> allows at any time; so the action
  \<^verbatim>\<open>notify_one()\<close> itself changes nothing but the program point of the notifier.
  \<open>Stop\<close> is \<^verbatim>\<open>stop()\<close>, and \<^verbatim>\<open>stop_periodic()\<close> for \<^verbatim>\<open>Cpp_Timers\<close>.  \<open>Call c d r0 f\<close> is
  thread \<open>c\<close> entering the restart-aware \<^verbatim>\<open>start(d, f)\<close>, whose actions interleave with
  those of the tasks.  An operation or event that is not possible in a state (a mutex is
  taken, the thread is blocked or has ended) yields \<open>None\<close>.
\<close>

datatype 'r event =
    Tick
  | Step nat
  | Timeout nat
  | Wakeup thread_id
  | Stop
  | SetSingleShot
  | SetPeriodic
  | Call nat int 'r "'r callable"
  | CallerStep nat
  | StartOneShot int 'r "'r callable"
  | StartPeriodic int 'r "'r callable"

definition upd_task :: "nat \<Rightarrow> ('r task \<Rightarrow> 'r task) \<Rightarrow> ('r, 'z) world_scheme \<Rightarrow> ('r, 'z) world_scheme" where
  "upd_task t g s = s\<lparr>tasks := (tasks s)[t := g (tasks s ! t)]\<rparr>"

definition set_pc :: "nat \<Rightarrow> 'r pc \<Rightarrow> ('r, 'z) world_scheme \<Rightarrow> ('r, 'z) world_scheme" where
  "set_pc t p s = upd_task t (\<lambda>T. T\<lparr>pc := p\<rparr>) s"

text \<open>
  \<^verbatim>\<open>std::async(std::launch::async, lambda)\<close>: a new task at the first program point of
  its lambda.  \<open>r0\<close> is the content of a result object that no invocation has assigned:
  the default-initialised \<^verbatim>\<open>last_return_of_callable\<close>, or the value-initialised
  \<^verbatim>\<open>result_of_t<...>{}\<close>.  The caller keeps the future it is given (the destructor of a
  future of \<^verbatim>\<open>std::async\<close> that is dropped would wait for the task).
\<close>

definition launch :: "body \<Rightarrow> 'r pc \<Rightarrow> int \<Rightarrow> 'r \<Rightarrow> 'r callable \<Rightarrow> ('r, 'z) world_scheme \<Rightarrow> ('r, 'z) world_scheme" where
  "launch b p d r0 f s =
     s\<lparr>tasks := tasks s @ [\<lparr>pc = p, body = b, duration = d, callable = f,
                            default_result = r0, last_return_of_callable = r0, invoked = 0\<rparr>]\<rparr>"

text \<open>The timed wait of task \<open>t\<close> reaches its deadline.\<close>

definition timeout :: "nat \<Rightarrow> ('r, 'z) world_scheme \<Rightarrow> ('r, 'z) world_scheme option" where
  "timeout t s =
     (if t < length (tasks s) then
        (case pc (tasks s ! t) of
           ClockBlocked dl \<Rightarrow> if dl \<le> sys_now s then Some (set_pc t ClockTimedOut s) else None
         | _ \<Rightarrow> None)
      else None)"

text \<open>A blocked task is woken without its deadline having passed.\<close>

definition wakeup :: "nat \<Rightarrow> ('r, 'z) world_scheme \<Rightarrow> ('r, 'z) world_scheme option" where
  "wakeup t s =
     (if t < length (tasks s) then
        (case pc (tasks s ! t) of
           ClockBlocked dl \<Rightarrow> Some (set_pc t (ClockWoken dl) s)
         | WaitBlocked \<Rightarrow> Some (set_pc t WaitWoken s)
         | _ \<Rightarrow> None)
      else None)"

text \<open>The callable of task \<open>t\<close> is entered: the invocation is logged.\<close>

definition enter_callable :: "nat \<Rightarrow> ('r, 'z) world_scheme \<Rightarrow> ('r, 'z) world_scheme" where
  "enter_callable t s = set_pc t Invoking (s\<lparr>calls := calls s @ [t]\<rparr>)"

section \<open>The restart-aware \<^verbatim>\<open>async_timers::instance\<close>\<close>

text \<open>Program points of a thread inside \<^verbatim>\<open>start\<close> (async_timers.hpp, lines 52 to 73).\<close>

datatype spc =
    S_Cas          \<comment> \<open>line 53, \<^verbatim>\<open>is_running.compare_exchange_strong(expected = false, true)\<close>\<close>
  | S_StoreFalse   \<comment> \<open>line 59\<close>
  | S_ResetStop    \<comment> \<open>line 60\<close>
  | S_Lock         \<comment> \<open>line 61\<close>
  | S_WaitPred     \<comment> \<open>line 62, the predicate is evaluated\<close>
  | S_Blocked      \<comment> \<open>line 62, blocked with the mutex released\<close>
  | S_Woken        \<comment> \<open>line 62, woken; the mutex is taken again\<close>
  | S_StoreTrue    \<comment> \<open>line 70\<close>
  | S_Unlock       \<comment> \<open>line 71, end of the scope of \<^verbatim>\<open>lock\<close>\<close>
  | S_ResetClock   \<comment> \<open>line 72\<close>
  | S_Launch       \<comment> \<open>line 73\<close>

datatype 'r caller = Idle | InStart spc int 'r "'r callable"

record 'r restart_instance = "'r world" +
  is_running :: bool
  is_single_shot :: bool
  finished_waiting_for_clock :: bool
  finished_waiting_for_stop :: bool
  running_cond_mutex :: "thread_id option"
  callers :: "'r caller list"

text \<open>
  The constructor initialises \<^verbatim>\<open>is_running\<close> and \<^verbatim>\<open>is_single_shot\<close> only; the two plain
  \<^verbatim>\<open>bool\<close> members start with indeterminate contents \<open>u\<close> and \<open>v\<close>.  \<open>n\<close> is the
  number of threads that may call \<^verbatim>\<open>start\<close>.
\<close>

definition new_restart_instance :: "nat \<Rightarrow> bool \<Rightarrow> bool \<Rightarrow> 'r restart_instance" where
  "new_restart_instance n u v =
     \<lparr>sys_now = 0, wait_cond_mutex = None, tasks = [], calls = [],
      is_running = False, is_single_shot = True,
      finished_waiting_for_clock = u, finished_waiting_for_stop = v,
      running_cond_mutex = None, callers = replicate n Idle\<rparr>"

definition stop :: "'r restart_instance \<Rightarrow> 'r restart_instance" where
  "stop s = s\<lparr>is_running := False\<rparr>"

definition set_single_shot :: "'r restart_instance \<Rightarrow> 'r restart_instance" where
  "set_single_shot s = s\<lparr>is_single_shot := True\<rparr>"

definition set_periodic :: "'r restart_instance \<Rightarrow> 'r restart_instance" where
  "set_periodic s = s\<lparr>is_single_shot := False\<rparr>"

text \<open>One action of task \<open>t\<close> inside \<^verbatim>\<open>clock\<close> (lines 129 to 144).\<close>

definition clock :: "nat \<Rightarrow> 'r restart_instance \<Rightarrow> 'r restart_instance option" where
  "clock t s =
     (case pc (tasks s ! t) of
        ClockLock \<Rightarrow>
          if wait_cond_mutex s = None
          then Some (set_pc t ClockNow (s\<lparr>wait_cond_mutex := Some (Task t)\<rparr>)) else None
      | ClockNow \<Rightarrow> Some (set_pc t (ClockWait (sys_now s + duration (tasks s ! t))) s)
      | ClockWait dl \<Rightarrow>
          if \<not> is_running s then Some (set_pc t ClockSet s)
          else Some (set_pc t (ClockBlocked dl) (s\<lparr>wait_cond_mutex := None\<rparr>))
      | ClockTimedOut \<Rightarrow>
          if wait_cond_mutex s = None
          then Some (set_pc t ClockSet (s\<lparr>wait_cond_mutex := Some (Task t)\<rparr>)) else None
      | ClockWoken dl \<Rightarrow>
          if wait_cond_mutex s = None
          then Some (set_pc t (ClockWait dl) (s\<lparr>wait_cond_mutex := Some (Task t)\<rparr>)) else None
      | ClockSet \<Rightarrow> Some (set_pc t ClockUnlock (s\<lparr>finished_waiting_for_clock := True\<rparr>))
      | ClockUnlock \<Rightarrow> Some (set_pc t ClockNotify (s\<lparr>wait_cond_mutex := None\<rparr>))
      | ClockNotify \<Rightarrow> Some (set_pc t WaitLock s)
      | _ \<Rightarrow> None)"

text \<open>One action of task \<open>t\<close> in the lambda that \<^verbatim>\<open>start\<close> launches (lines 73 to 113).\<close>

definition start_task :: "nat \<Rightarrow> 'r restart_instance \<Rightarrow> 'r restart_instance option" where
  "start_task t s =
     (case pc (tasks s ! t) of
        LoopTest \<Rightarrow> Some (set_pc t (if is_running s then ClockLock else ExitLock) s)
      | WaitLock \<Rightarrow>
          if wait_cond_mutex s = None
          then Some (set_pc t WaitPred (s\<lparr>wait_cond_mutex := Some (Task t)\<rparr>)) else None
      | WaitPred \<Rightarrow>
          if finished_waiting_for_clock s then Some (set_pc t WaitUnlock s)
          else Some (set_pc t WaitBlocked (s\<lparr>wait_cond_mutex := None\<rparr>))
      | WaitBlocked \<Rightarrow> None
      | WaitWoken \<Rightarrow>
          if wait_cond_mutex s = None
          then Some (set_pc t WaitPred (s\<lparr>wait_cond_mutex := Some (Task t)\<rparr>)) else None
      | WaitUnlock \<Rightarrow> Some (set_pc t CheckFlag (s\<lparr>wait_cond_mutex := None\<rparr>))
      | CheckFlag \<Rightarrow> Some (set_pc t (if \<not> is_running s then ExitLock else Invoke) s)
      | Invoke \<Rightarrow> Some (enter_callable t s)
      | Invoking \<Rightarrow>
          (case callable (tasks s ! t) (invoked (tasks s ! t)) of
             Value v \<Rightarrow>
               Some (upd_task t (\<lambda>T. T\<lparr>pc := CheckSingleShot, last_return_of_callable := v,
                                        invoked := Suc (invoked T)\<rparr>) s)
           | Throws \<Rightarrow> Some (upd_task t (\<lambda>T. T\<lparr>pc := Raised, invoked := Suc (invoked T)\<rparr>) s))
      | CheckSingleShot \<Rightarrow> Some (set_pc t (if is_single_shot s then ExitLock else LoopTest) s)
      | ExitLock \<Rightarrow>
          if running_cond_mutex s = None
          then Some (set_pc t ExitSet (s\<lparr>running_cond_mutex := Some (Task t)\<rparr>)) else None
      | ExitSet \<Rightarrow> Some (set_pc t ExitNotify (s\<lparr>finished_waiting_for_stop := True\<rparr>))
      | ExitNotify \<Rightarrow> Some (set_pc t ExitStore s)
      | ExitStore \<Rightarrow> Some (set_pc t Return (s\<lparr>is_running := False\<rparr>))
      | Return \<Rightarrow>
          Some (set_pc t (Returned (last_return_of_callable (tasks s ! t)))
                  (s\<lparr>running_cond_mutex := None\<rparr>))
      | ClockLock \<Rightarrow> clock t s
      | ClockNow \<Rightarrow> clock t s
      | ClockWait dl \<Rightarrow> clock t s
      | ClockTimedOut \<Rightarrow> clock t s
      | ClockWoken dl \<Rightarrow> clock t s
      | ClockSet \<Rightarrow> clock t s
      | ClockUnlock \<Rightarrow> clock t s
      | ClockNotify \<Rightarrow> clock t s
      | _ \<Rightarrow> None)"

definition set_spc :: "nat \<Rightarrow> spc \<Rightarrow> 'r restart_instance \<Rightarrow> 'r restart_instance" where
  "set_spc c p s =
     s\<lparr>callers := (callers s)[c := (case callers s ! c of
                                       Idle \<Rightarrow> Idle
                                     | InStart q d r0 f \<Rightarrow> InStart p d r0 f)]\<rparr>"

text \<open>One action of calling thread \<open>c\<close> inside \<^verbatim>\<open>start\<close> (lines 52 to 73).\<close>

definition start :: "nat \<Rightarrow> 'r restart_instance \<Rightarrow> 'r restart_instance option" where
  "start c s =
     (case callers s ! c of
        Idle \<Rightarrow> None
      | InStart p d r0 f \<Rightarrow>
          (case p of
             S_Cas \<Rightarrow>
               if \<not> is_running s then Some (set_spc c S_ResetClock (s\<lparr>is_running := True\<rparr>))
               else Some (set_spc c S_StoreFalse s)
           | S_StoreFalse \<Rightarrow> Some (set_spc c S_ResetStop (s\<lparr>is_running := False\<rparr>))
           | S_ResetStop \<Rightarrow> Some (set_spc c S_Lock (s\<lparr>finished_waiting_for_stop := False\<rparr>))
           | S_Lock \<Rightarrow>
               if running_cond_mutex s = None
               then Some (set_spc c S_WaitPred (s\<lparr>running_cond_mutex := Some (Caller c)\<rparr>))
               else None
           | S_WaitPred \<Rightarrow>
               if finished_waiting_for_stop s then Some (set_spc c S_StoreTrue s)
               else Some (set_spc c S_Blocked (s\<lparr>running_cond_mutex := None\<rparr>))
           | S_Blocked \<Rightarrow> None
           | S_Woken \<Rightarrow>
               if running_cond_mutex s = None
               then Some (set_spc c S_WaitPred (s\<lparr>running_cond_mutex := Some (Caller c)\<rparr>))
               else None
           | S_StoreTrue \<Rightarrow> Some (set_spc c S_Unlock (s\<lparr>is_running := True\<rparr>))
           | S_Unlock \<Rightarrow> Some (set_spc c S_ResetClock (s\<lparr>running_cond_mutex := None\<rparr>))
           | S_ResetClock \<Rightarrow> Some (set_spc c S_Launch (s\<lparr>finished_waiting_for_clock := False\<rparr>))
           | S_Launch \<Rightarrow>
               Some (launch Loop LoopTest d r0 f (s\<lparr>callers := (callers s)[c := Idle]\<rparr>))))"

text \<open>A thread blocked in the wait of line 62 is woken.\<close>

definition wakeup_caller :: "nat \<Rightarrow> 'r restart_instance \<Rightarrow> 'r restart_instance option" where
  "wakeup_caller c s =
     (if c < length (callers s) then
        (case callers s ! c of
           InStart S_Blocked d r0 f \<Rightarrow> Some (set_spc c S_Woken s)
         | _ \<Rightarrow> None)
      else None)"

text \<open>Thread \<open>c\<close>, not inside \<^verbatim>\<open>start\<close>, calls \<^verbatim>\<open>start(d, f)\<close>.\<close>

definition call_start :: "nat \<Rightarrow> int \<Rightarrow> 'r \<Rightarrow> 'r callable \<Rightarrow> 'r restart_instance \<Rightarrow> 'r restart_instance option" where
  "call_start c d r0 f s =
     (if c < length (callers s) then
        (case callers s ! c of
           Idle \<Rightarrow> Some (s\<lparr>callers := (callers s)[c := InStart S_Cas d r0 f]\<rparr>)
         | _ \<Rightarrow> None)
      else None)"

definition step :: "'r event \<Rightarrow> 'r restart_instance \<Rightarrow> 'r restart_instance option" where
  "step e s =
     (case e of
        Tick \<Rightarrow> Some (s\<lparr>sys_now := sys_now s + 1\<rparr>)
      | Step t \<Rightarrow> if t < length (tasks s) then start_task t s else None
      | Timeout t \<Rightarrow> timeout t s
      | Wakeup (Task t) \<Rightarrow> wakeup t s
      | Wakeup (Caller c) \<Rightarrow> wakeup_caller c s
      | Stop \<Rightarrow> Some (stop s)
      | SetSingleShot \<Rightarrow> Some (set_single_shot s)
      | SetPeriodic \<Rightarrow> Some (set_periodic s)
      | Call c d r0 f \<Rightarrow> call_start c d r0 f s
      | CallerStep c \<Rightarrow> if c < length (callers s) then start c s else None
      | _ \<Rightarrow> None)"

fun run :: "'r event list \<Rightarrow> 'r restart_instance \<Rightarrow> 'r restart_instance option" where
  "run [] s = Some s"
| "run (e # es) s = (case step e s of None \<Rightarrow> None | Some s' \<Rightarrow> run es s')"

section \<open>The stopped-flag \<^verbatim>\<open>async_timers::instance\<close>\<close>

text \<open>
  The second class of async_timers.hpp (lines 190 to 273).  Its constructor initialises
  \<^verbatim>\<open>is_elapsed\<close> only; the atomic \<^verbatim>\<open>stopped\<close> starts with indeterminate content \<open>u\<close>.
\<close>

record 'r elapsed_world = "'r world" +
  is_elapsed :: bool

record 'r stopped_instance = "'r elapsed_world" +
  stopped :: bool

definition new_stopped_instance :: "bool \<Rightarrow> 'r stopped_instance" where
  "new_stopped_instance u =
     \<lparr>sys_now = 0, wait_cond_mutex = None, tasks = [], calls = [],
      is_elapsed = False, stopped = u\<rparr>"

text \<open>\<^verbatim>\<open>start_one_shot\<close> (lines 203 to 223) and \<^verbatim>\<open>start_periodic\<close> (lines 226 to 247), as
  the calling thread executes them: the flag is reset, then the task is launched.\<close>

definition start_one_shot :: "int \<Rightarrow> 'r \<Rightarrow> 'r callable \<Rightarrow> 'r stopped_instance \<Rightarrow> 'r stopped_instance" where
  "start_one_shot d r0 f s = launch OneShot ClockLock d r0 f (s\<lparr>stopped := False\<rparr>)"

definition start_periodic :: "int \<Rightarrow> 'r \<Rightarrow> 'r callable \<Rightarrow> 'r stopped_instance \<Rightarrow> 'r stopped_instance" where
  "start_periodic d r0 f s = launch Periodic LoopTest d r0 f (s\<lparr>stopped := False\<rparr>)"

definition stop_sf :: "'r stopped_instance \<Rightarrow> 'r stopped_instance" where
  "stop_sf s = s\<lparr>stopped := True\<rparr>"

text \<open>One action of task \<open>t\<close> inside \<^verbatim>\<open>clock\<close> (lines 254 to 265).\<close>

definition clock_sf :: "nat \<Rightarrow> 'r stopped_instance \<Rightarrow> 'r stopped_instance option" where
  "clock_sf t s =
     (case pc (tasks s ! t) of
        ClockLock \<Rightarrow>
          if wait_cond_mutex s = None
          then Some (set_pc t ClockNow (s\<lparr>wait_cond_mutex := Some (Task t)\<rparr>)) else None
      | ClockNow \<Rightarrow> Some (set_pc t (ClockWait (sys_now s + duration (tasks s ! t))) s)
      | ClockWait dl \<Rightarrow>
          if stopped s then Some (set_pc t ClockSet s)
          else Some (set_pc t (ClockBlocked dl) (s\<lparr>wait_cond_mutex := None\<rparr>))
      | ClockTimedOut \<Rightarrow>
          if wait_cond_mutex s = None
          then Some (set_pc t ClockSet (s\<lparr>wait_cond_mutex := Some (Task t)\<rparr>)) else None
      | ClockWoken dl \<Rightarrow>
          if wait_cond_mutex s = None
          then Some (set_pc t (ClockWait dl) (s\<lparr>wait_cond_mutex := Some (Task t)\<rparr>)) else None
      | ClockSet \<Rightarrow> Some (set_pc t ClockUnlock (s\<lparr>is_elapsed := True\<rparr>))
      | ClockUnlock \<Rightarrow> Some (set_pc t ClockNotify (s\<lparr>wait_cond_mutex := None\<rparr>))
      | ClockNotify \<Rightarrow> Some (set_pc t WaitLock s)
      | _ \<Rightarrow> None)"

text \<open>One action of task \<open>t\<close> in the lambda of \<^verbatim>\<open>start_one_shot\<close> (lines 206 to 221).\<close>

definition one_shot_task :: "nat \<Rightarrow> 'r stopped_instance \<Rightarrow> 'r stopped_instance option" where
  "one_shot_task t s =
     (case pc (tasks s ! t) of
        WaitLock \<Rightarrow>
          if wait_cond_mutex s = None
          then Some (set_pc t WaitPred (s\<lparr>wait_cond_mutex := Some (Task t)\<rparr>)) else None
      | WaitPred \<Rightarrow>
          if is_elapsed s then Some (set_pc t WaitUnlock s)
          else Some (set_pc t WaitBlocked (s\<lparr>wait_cond_mutex := None\<rparr>))
      | WaitBlocked \<Rightarrow> None
      | WaitWoken \<Rightarrow>
          if wait_cond_mutex s = None
          then Some (set_pc t WaitPred (s\<lparr>wait_cond_mutex := Some (Task t)\<rparr>)) else None
      | WaitUnlock \<Rightarrow> Some (set_pc t CheckFlag (s\<lparr>wait_cond_mutex := None\<rparr>))
      | CheckFlag \<Rightarrow>
          if stopped s then Some (set_pc t (Returned (default_result (tasks s ! t))) s)
          else Some (set_pc t Invoke s)
      | Invoke \<Rightarrow> Some (enter_callable t s)
      | Invoking \<Rightarrow>
          (case callable (tasks s ! t) (invoked (tasks s ! t)) of
             Value v \<Rightarrow> Some (upd_task t (\<lambda>T. T\<lparr>pc := Returned v, invoked := Suc (invoked T)\<rparr>) s)
           | Throws \<Rightarrow> Some (upd_task t (\<lambda>T. T\<lparr>pc := Raised, invoked := Suc (invoked T)\<rparr>) s))
      | ClockLock \<Rightarrow> clock_sf t s
      | ClockNow \<Rightarrow> clock_sf t s
      | ClockWait dl \<Rightarrow> clock_sf t s
      | ClockTimedOut \<Rightarrow> clock_sf t s
      | ClockWoken dl \<Rightarrow> clock_sf t s
      | ClockSet \<Rightarrow> clock_sf t s
      | ClockUnlock \<Rightarrow> clock_sf t s
      | ClockNotify \<Rightarrow> clock_sf t s
      | _ \<Rightarrow> None)"

text \<open>One action of task \<open>t\<close> in the lambda of \<^verbatim>\<open>start_periodic\<close> (lines 229 to 245).\<close>

definition periodic_task :: "nat \<Rightarrow> 'r stopped_instance \<Rightarrow> 'r stopped_instance option" where
  "periodic_task t s =
     (case pc (tasks s ! t) of
        LoopTest \<Rightarrow> Some (set_pc t (if \<not> stopped s then ClockLock else Return) s)
      | WaitLock \<Rightarrow>
          if wait_cond_mutex s = None
          then Some (set_pc t WaitPred (s\<lparr>wait_cond_mutex := Some (Task t)\<rparr>)) else None
      | WaitPred \<Rightarrow>
          if is_elapsed s then Some (set_pc t WaitUnlock s)
          else Some (set_pc t WaitBlocked (s\<lparr>wait_cond_mutex := None\<rparr>))
      | WaitBlocked \<Rightarrow> None
      | WaitWoken \<Rightarrow>
          if wait_cond_mutex s = None
          then Some (set_pc t WaitPred (s\<lparr>wait_cond_mutex := Some (Task t)\<rparr>)) else None
      | WaitUnlock \<Rightarrow> Some (set_pc t Invoke (s\<lparr>wait_cond_mutex := None\<rparr>))
      | Invoke \<Rightarrow> Some (enter_callable t s)
      | Invoking \<Rightarrow>
          (case callable (tasks s ! t) (invoked (tasks s ! t)) of
             Value v \<Rightarrow>
               Some (upd_task t (\<lambda>T. T\<lparr>pc := LoopTest, last_return_of_callable := v,
                                        invoked := Suc (invoked T)\<rparr>) s)
           | Throws \<Rightarrow> Some (upd_task t (\<lambda>T. T\<lparr>pc := Raised, invoked := Suc (invoked T)\<rparr>) s))
      | Return \<Rightarrow> Some (set_pc t (Returned (last_return_of_callable (tasks s ! t))) s)
      | ClockLock \<Rightarrow> clock_sf t s
      | ClockNow \<Rightarrow> clock_sf t s
      | ClockWait dl \<Rightarrow> clock_sf t s
      | ClockTimedOut \<Rightarrow> clock_sf t s
      | ClockWoken dl \<Rightarrow> clock_sf t s
      | ClockSet \<Rightarrow> clock_sf t s
      | ClockUnlock \<Rightarrow> clock_sf t s
      | ClockNotify \<Rightarrow> clock_sf t s
      | _ \<Rightarrow> None)"

definition step_sf :: "'r event \<Rightarrow> 'r stopped_instance \<Rightarrow> 'r stopped_instance option" where
  "step_sf e s =
     (case e of
        Tick \<Rightarrow> Some (s\<lparr>sys_now := sys_now s + 1\<rparr>)
      | Step t \<Rightarrow>
          if t < length (tasks s) then
            (case body (tasks s ! t) of
               OneShot \<Rightarrow> one_shot_task t s
             | Periodic \<Rightarrow> periodic_task t s
             | Loop \<Rightarrow> None)
          else None
      | Timeout t \<Rightarrow> timeout t s
      | Wakeup (Task t) \<Rightarrow> wakeup t s
      | Stop \<Rightarrow> Some (stop_sf s)
      | StartOneShot d r0 f \<Rightarrow> Some (start_one_shot d r0 f s)
      | StartPeriodic d r0 f \<Rightarrow> Some (start_periodic d r0 f s)
      | _ \<Rightarrow> None)"

fun run_sf :: "'r event list \<Rightarrow> 'r stopped_instance \<Rightarrow> 'r stopped_instance option" where
  "run_sf [] s = Some s"
| "run_sf (e # es) s = (case step_sf e s of None \<Rightarrow> None | Some s' \<Rightarrow> run_sf es s')"

section \<open>\<^verbatim>\<open>Cpp_Timers\<close>\<close>

text \<open>
  The class of cpp_timers.h.  Its constructor initialises \<^verbatim>\<open>is_elapsed\<close> only; the
  atomic \<^verbatim>\<open>stop_flag\<close> starts with indeterminate content \<open>u\<close>.
\<close>

record 'r Cpp_Timers = "'r elapsed_world" +
  stop_flag :: bool

definition new_Cpp_Timers :: "bool \<Rightarrow> 'r Cpp_Timers" where
  "new_Cpp_Timers u =
     \<lparr>sys_now = 0, wait_cond_mutex = None, tasks = [], calls = [],
      is_elapsed = False, stop_flag = u\<rparr>"

text \<open>\<^verbatim>\<open>start_one_shot\<close> (lines 47 to 63) and \<^verbatim>\<open>start_periodic\<close> (lines 66 to 88), as the
  calling thread executes them: the task is launched.\<close>

definition start_one_shot_ct :: "int \<Rightarrow> 'r \<Rightarrow> 'r callable \<Rightarrow> 'r Cpp_Timers \<Rightarrow> 'r Cpp_Timers" where
  "start_one_shot_ct d r0 f s = launch OneShot ClockLock d r0 f s"

definition start_periodic_ct :: "int \<Rightarrow> 'r \<Rightarrow> 'r callable \<Rightarrow> 'r Cpp_Timers \<Rightarrow> 'r Cpp_Timers" where
  "start_periodic_ct d r0 f s = launch Periodic InitFlag d r0 f s"

definition stop_periodic :: "'r Cpp_Timers \<Rightarrow> 'r Cpp_Timers" where
  "stop_periodic s = s\<lparr>stop_flag := False\<rparr>"

text \<open>One action of task \<open>t\<close> inside \<^verbatim>\<open>clock\<close> (lines 95 to 103): the timed wait has no
  predicate, so it returns on the first wake-up of any kind.\<close>

definition clock_ct :: "nat \<Rightarrow> 'r Cpp_Timers \<Rightarrow> 'r Cpp_Timers option" where
  "clock_ct t s =
     (case pc (tasks s ! t) of
        ClockLock \<Rightarrow>
          if wait_cond_mutex s = None
          then Some (set_pc t ClockNow (s\<lparr>wait_cond_mutex := Some (Task t)\<rparr>)) else None
      | ClockNow \<Rightarrow> Some (set_pc t (ClockWait (sys_now s + duration (tasks s ! t))) s)
      | ClockWait dl \<Rightarrow> Some (set_pc t (ClockBlocked dl) (s\<lparr>wait_cond_mutex := None\<rparr>))
      | ClockTimedOut \<Rightarrow>
          if wait_cond_mutex s = None
          then Some (set_pc t ClockSet (s\<lparr>wait_cond_mutex := Some (Task t)\<rparr>)) else None
      | ClockWoken dl \<Rightarrow>
          if wait_cond_mutex s = None
          then Some (set_pc t ClockSet (s\<lparr>wait_cond_mutex := Some (Task t)\<rparr>)) else None
      | ClockSet \<Rightarrow> Some (set_pc t ClockUnlock (s\<lparr>is_elapsed := True\<rparr>))
      | ClockUnlock \<Rightarrow> Some (set_pc t ClockNotify (s\<lparr>wait_cond_mutex := None\<rparr>))
      | ClockNotify \<Rightarrow> Some (set_pc t WaitLock s)
      | _ \<Rightarrow> None)"

text \<open>One action of task \<open>t\<close> in the lambda of \<^verbatim>\<open>start_one_shot\<close> (lines 49 to 61).\<close>

definition one_shot_task_ct :: "nat \<Rightarrow> 'r Cpp_Timers \<Rightarrow> 'r Cpp_Timers option" where
  "one_shot_task_ct t s =
     (case pc (tasks s ! t) of
        WaitLock \<Rightarrow>
          if wait_cond_mutex s = None
          then Some (set_pc t WaitPred (s\<lparr>wait_cond_mutex := Some (Task t)\<rparr>)) else None
      | WaitPred \<Rightarrow>
          if is_elapsed s then Some (set_pc t WaitUnlock s)
          else Some (set_pc t WaitBlocked (s\<lparr>wait_cond_mutex := None\<rparr>))
      | WaitBlocked \<Rightarrow> None
      | WaitWoken \<Rightarrow>
          if wait_cond_mutex s = None
          then Some (set_pc t WaitPred (s\<lparr>wait_cond_mutex := Some (Task t)\<rparr>)) else None
      | WaitUnlock \<Rightarrow> Some (set_pc t Invoke (s\<lparr>wait_cond_mutex := None\<rparr>))
      | Invoke \<Rightarrow> Some (enter_callable t s)
      | Invoking \<Rightarrow>
          (case callable (tasks s ! t) (invoked (tasks s ! t)) of
             Value v \<Rightarrow> Some (upd_task t (\<lambda>T. T\<lparr>pc := Returned v, invoked := Suc (invoked T)\<rparr>) s)
           | Throws \<Rightarrow> Some (upd_task t (\<lambda>T. T\<lparr>pc := Raised, invoked := Suc (invoked T)\<rparr>) s))
      | ClockLock \<Rightarrow> clock_ct t s
      | ClockNow \<Rightarrow> clock_ct t s
      | ClockWait dl \<Rightarrow> clock_ct t s
      | ClockTimedOut \<Rightarrow> clock_ct t s
      | ClockWoken dl \<Rightarrow> clock_ct t s
      | ClockSet \<Rightarrow> clock_ct t s
      | ClockUnlock \<Rightarrow> clock_ct t s
      | ClockNotify \<Rightarrow> clock_ct t s
      | _ \<Rightarrow> None)"

text \<open>One action of task \<open>t\<close> in the lambda of \<^verbatim>\<open>start_periodic\<close> (lines 68 to 86).\<close>

definition periodic_task_ct :: "nat \<Rightarrow> 'r Cpp_Timers \<Rightarrow> 'r Cpp_Timers option" where
  "periodic_task_ct t s =
     (case pc (tasks s ! t) of
        InitFlag \<Rightarrow> Some (set_pc t LoopTest (s\<lparr>stop_flag := True\<rparr>))
      | LoopTest \<Rightarrow> Some (set_pc t (if stop_flag s then ClockLock else Return) s)
      | WaitLock \<Rightarrow>
          if wait_cond_mutex s = None
          then Some (set_pc t WaitPred (s\<lparr>wait_cond_mutex := Some (Task t)\<rparr>)) else None
      | WaitPred \<Rightarrow>
          if is_elapsed s then Some (set_pc t WaitUnlock s)
          else Some (set_pc t WaitBlocked (s\<lparr>wait_cond_mutex := None\<rparr>))
      | WaitBlocked \<Rightarrow> None
      | WaitWoken \<Rightarrow>
          if wait_cond_mutex s = None
          then Some (set_pc t WaitPred (s\<lparr>wait_cond_mutex := Some (Task t)\<rparr>)) else None
      | WaitUnlock \<Rightarrow> Some (set_pc t Invoke (s\<lparr>wait_cond_mutex := None\<rparr>))
      | Invoke \<Rightarrow> Some (enter_callable t s)
      | Invoking \<Rightarrow>
          (case callable (tasks s ! t) (invoked (tasks s ! t)) of
             Value v \<Rightarrow>
               Some (upd_task t (\<lambda>T. T\<lparr>pc := LoopTest, last_return_of_callable := v,
                                        invoked := Suc (invoked T)\<rparr>) s)
           | Throws \<Rightarrow> Some (upd_task t (\<lambda>T. T\<lparr>pc := Raised, invoked := Suc (invoked T)\<rparr>) s))
      | Return \<Rightarrow> Some (set_pc t (Returned (last_return_of_callable (tasks s ! t))) s)
      | ClockLock \<Rightarrow> clock_ct t s
      | ClockNow \<Rightarrow> clock_ct t s
      | ClockWait dl \<Rightarrow> clock_ct t s
      | ClockTimedOut \<Rightarrow> clock_ct t s
      | ClockWoken dl \<Rightarrow> clock_ct t s
      | ClockSet \<Rightarrow> clock_ct t s
      | ClockUnlock \<Rightarrow> clock_ct t s
      | ClockNotify \<Rightarrow> clock_ct t s
      | _ \<Rightarrow> None)"

definition step_ct :: "'r event \<Rightarrow> 'r Cpp_Timers \<Rightarrow> 'r Cpp_Timers option" where
  "step_ct e s =
     (case e of
        Tick \<Rightarrow> Some (s\<lparr>sys_now := sys_now s + 1\<rparr>)
      | Step t \<Rightarrow>
          if t < length (tasks s) then
            (case body (tasks s ! t) of
               OneShot \<Rightarrow> one_shot_task_ct t s
             | Periodic \<Rightarrow> periodic_task_ct t s
             | Loop \<Rightarrow> None)
          else None
      | Timeout t \<Rightarrow> timeout t s
      | Wakeup (Task t) \<Rightarrow> wakeup t s
      | Stop \<Rightarrow> Some (stop_periodic s)
      | StartOneShot d r0 f \<Rightarrow> Some (start_one_shot_ct d r0 f s)
      | StartPeriodic d r0 f \<Rightarrow> Some (start_periodic_ct d r0 f s)
      | _ \<Rightarrow> None)"

fun run_ct :: "'r event list \<Rightarrow> 'r Cpp_Timers \<Rightarrow> 'r Cpp_Timers option" where
  "run_ct [] s = Some s"
| "run_ct (e # es) s = (case step_ct e s of None \<Rightarrow> None | Some s' \<Rightarrow> run_ct es s')"

section \<open>Notions used by the properties\<close>

text \<open>Whether a program point lies inside the \<^verbatim>\<open>while\<close> statement of the lambda of
  \<^verbatim>\<open>start\<close> (lines 80 to 107), the calls of \<^verbatim>\<open>clock\<close> included.\<close>

definition in_loop :: "'r pc \<Rightarrow> bool" where
  "in_loop p =
     (case p of
        InitFlag \<Rightarrow> False
      | ExitLock \<Rightarrow> False
      | ExitSet \<Rightarrow> False
      | ExitNotify \<Rightarrow> False
      | ExitStore \<Rightarrow> False
      | Return \<Rightarrow> False
      | Returned v \<Rightarrow> False
      | Raised \<Rightarrow> False
      | _ \<Rightarrow> True)"

definition active_loops :: "('r, 'z) world_scheme \<Rightarrow> nat" where
  "active_loops s = length (filter (\<lambda>T. in_loop (pc T)) (tasks s))"


text \<open>The events that call a start operation.\<close>

definition starts :: "'r event \<Rightarrow> bool" where
  "starts e =
     (case e of
        Call c d r0 f \<Rightarrow> True
      | StartOneShot d r0 f \<Rightarrow> True
      | StartPeriodic d r0 f \<Rightarrow> True
      | _ \<Rightarrow> False)"

text \<open>The program points of a one-shot task of the stopped-flag instance up to and
  including the test of \<^verbatim>\<open>stopped\<close> in line 216.\<close>

definition before_check :: "'r pc \<Rightarrow> bool" where
  "before_check p =
     (case p of
        ClockLock \<Rightarrow> True
      | ClockNow \<Rightarrow> True
      | ClockWait dl \<Rightarrow> True
      | ClockBlocked dl \<Rightarrow> True
      | ClockTimedOut \<Rightarrow> True
      | ClockWoken dl \<Rightarrow> True
      | ClockSet \<Rightarrow> True
      | ClockUnlock \<Rightarrow> True
      | ClockNotify \<Rightarrow> True
      | WaitLock \<Rightarrow> True
      | WaitPred \<Rightarrow> True
      | WaitBlocked \<Rightarrow> True
      | WaitWoken \<Rightarrow> True
      | WaitUnlock \<Rightarrow> True
      | CheckFlag \<Rightarrow> True
      | _ \<Rightarrow> False)"

text \<open>The invariant of a cancelled one-shot run of the stopped-flag instance: the flag
  is set, the task has not passed the test of line 216 or has returned the
  value-initialised result \<open>r0\<close>, and it has entered its callable \<open>k\<close> times.\<close>

definition cancelled :: "nat \<Rightarrow> 'r \<Rightarrow> nat \<Rightarrow> 'r stopped_instance \<Rightarrow> bool" where
  "cancelled t r0 k s \<longleftrightarrow>
     stopped s \<and> t < length (tasks s) \<and> body (tasks s ! t) = OneShot \<and>
     default_result (tasks s ! t) = r0 \<and> count_list (calls s) t = k \<and>
     (before_check (pc (tasks s ! t)) \<or> pc (tasks s ! t) = Returned r0)"

text \<open>A one-shot task of the stopped-flag instance blocked in the timed wait of
  \<^verbatim>\<open>clock\<close>, as \<^verbatim>\<open>start_one_shot(10, f)\<close> on a new instance leaves it.\<close>

definition blocked_one_shot :: "int stopped_instance" where
  "blocked_one_shot =
     \<lparr>sys_now = 0, wait_cond_mutex = None,
      tasks = [\<lparr>pc = ClockBlocked 10, body = OneShot, duration = 10,
                callable = (\<lambda>k. Value 7), default_result = 0,
                last_return_of_callable = 0, invoked = 0\<rparr>],
      calls = [], is_elapsed = False, stopped = False\<rparr>"

text \<open>Invariants of the restart-aware instance.  A calling thread is \<open>launching\<close> when it
  has set \<^verbatim>\<open>is_running\<close> and not yet launched its task, and \<open>awaiting\<close> when it has
  cleared \<^verbatim>\<open>finished_waiting_for_stop\<close> and not yet seen it set.  A task is \<open>leaving\<close>
  when it has executed line 111, and has \<open>signalled\<close> when it has executed line 109.\<close>

definition launching :: "'r caller \<Rightarrow> bool" where
  "launching c =
     (case c of
        Idle \<Rightarrow> False
      | InStart p d r0 f \<Rightarrow>
          (case p of S_Unlock \<Rightarrow> True | S_ResetClock \<Rightarrow> True | S_Launch \<Rightarrow> True | _ \<Rightarrow> False))"

definition awaiting :: "'r caller \<Rightarrow> bool" where
  "awaiting c =
     (case c of
        Idle \<Rightarrow> False
      | InStart p d r0 f \<Rightarrow>
          (case p of S_Lock \<Rightarrow> True | S_WaitPred \<Rightarrow> True | S_Blocked \<Rightarrow> True
           | S_Woken \<Rightarrow> True | _ \<Rightarrow> False))"

definition leaving :: "'r pc \<Rightarrow> bool" where
  "leaving p = (case p of Return \<Rightarrow> True | Returned v \<Rightarrow> True | _ \<Rightarrow> False)"

definition signalled :: "'r pc \<Rightarrow> bool" where
  "signalled p =
     (case p of ExitNotify \<Rightarrow> True | ExitStore \<Rightarrow> True | Return \<Rightarrow> True
      | Returned v \<Rightarrow> True | _ \<Rightarrow> False)"

definition others :: "nat \<Rightarrow> ('a \<Rightarrow> bool) \<Rightarrow> 'a list \<Rightarrow> bool" where
  "others i P xs \<longleftrightarrow> (\<exists>j<length xs. j \<noteq> i \<and> P (xs ! j))"

definition running_inv :: "'r restart_instance \<Rightarrow> bool" where
  "running_inv s \<longleftrightarrow>
     (is_running s \<longrightarrow>
        list_ex launching (callers s) \<or> list_ex (\<lambda>T. \<not> leaving (pc T)) (tasks s))"

definition stop_inv :: "'r restart_instance \<Rightarrow> bool" where
  "stop_inv s \<longleftrightarrow>
     (list_ex (\<lambda>T. signalled (pc T)) (tasks s) \<longrightarrow>
        finished_waiting_for_stop s \<or> list_ex awaiting (callers s))"

definition result_inv :: "'r restart_instance \<Rightarrow> bool" where
  "result_inv s \<longleftrightarrow>
     (\<forall>t<length (tasks s).
        (t \<notin> set (calls s) \<longrightarrow>
           last_return_of_callable (tasks s ! t) = default_result (tasks s ! t) \<and>
           pc (tasks s ! t) \<noteq> Invoking) \<and>
        (\<forall>r. pc (tasks s ! t) = Returned r \<longrightarrow> r = last_return_of_callable (tasks s ! t)))"

definition restart_inv :: "'r restart_instance \<Rightarrow> bool" where
  "restart_inv s \<longleftrightarrow> running_inv s \<and> stop_inv s \<and> result_inv s"

text \<open>Invariant of the restart-aware instance with one calling thread and no \<^verbatim>\<open>stop()\<close>.
  A task is \<open>unfinished\<close> until it has executed line 111; it \<open>holds_exit\<close> while it holds
  \<^verbatim>\<open>running_cond_mutex\<close> (lines 108 to 112); it is \<open>after_signal\<close> between lines 109 and
  111.\<close>

definition unfinished :: "'r pc \<Rightarrow> bool" where
  "unfinished p = (case p of Return \<Rightarrow> False | Returned v \<Rightarrow> False | Raised \<Rightarrow> False | _ \<Rightarrow> True)"

definition holds_exit :: "'r pc \<Rightarrow> bool" where
  "holds_exit p =
     (case p of ExitSet \<Rightarrow> True | ExitNotify \<Rightarrow> True | ExitStore \<Rightarrow> True | Return \<Rightarrow> True
      | _ \<Rightarrow> False)"

definition after_signal :: "'r pc \<Rightarrow> bool" where
  "after_signal p = (case p of ExitNotify \<Rightarrow> True | ExitStore \<Rightarrow> True | _ \<Rightarrow> False)"

text \<open>The indices of the tasks whose program point satisfies \<open>P\<close>, and the task, if
  any, that owns a mutex.\<close>

definition tasks_at :: "('r pc \<Rightarrow> bool) \<Rightarrow> 'r task list \<Rightarrow> nat set" where
  "tasks_at P ts = {i. i < length ts \<and> P (pc (ts ! i))}"

definition owner :: "thread_id option \<Rightarrow> nat set" where
  "owner m = (case m of Some (Task i) \<Rightarrow> {i} | _ \<Rightarrow> {})"

definition only_signalled :: "'r restart_instance \<Rightarrow> bool" where
  "only_signalled s \<longleftrightarrow>
     (finished_waiting_for_stop s \<longrightarrow> tasks_at unfinished (tasks s) \<subseteq> tasks_at after_signal (tasks s))"

definition caller_inv :: "'r caller \<Rightarrow> 'r restart_instance \<Rightarrow> bool" where
  "caller_inv c s =
     (case c of
        Idle \<Rightarrow> \<not> is_running s \<longrightarrow> tasks_at unfinished (tasks s) = {}
      | InStart p d r0 f \<Rightarrow>
          (case p of
             S_Cas \<Rightarrow> \<not> is_running s \<longrightarrow> tasks_at unfinished (tasks s) = {}
           | S_StoreFalse \<Rightarrow> True
           | S_ResetStop \<Rightarrow> True
           | S_Lock \<Rightarrow> only_signalled s
           | S_WaitPred \<Rightarrow> running_cond_mutex s = Some (Caller 0) \<and> only_signalled s
           | S_Blocked \<Rightarrow> only_signalled s
           | S_Woken \<Rightarrow> only_signalled s
           | S_StoreTrue \<Rightarrow>
               running_cond_mutex s = Some (Caller 0) \<and> tasks_at unfinished (tasks s) = {}
           | S_Unlock \<Rightarrow>
               running_cond_mutex s = Some (Caller 0) \<and> is_running s \<and>
               tasks_at unfinished (tasks s) = {}
           | S_ResetClock \<Rightarrow> is_running s \<and> tasks_at unfinished (tasks s) = {}
           | S_Launch \<Rightarrow> is_running s \<and> tasks_at unfinished (tasks s) = {}))"

definition single_inv :: "'r restart_instance \<Rightarrow> bool" where
  "single_inv s \<longleftrightarrow>
     length (callers s) = 1 \<and>
     tasks_at unfinished (tasks s) \<subseteq> {length (tasks s) - 1} \<and>
     tasks_at holds_exit (tasks s) \<subseteq> owner (running_cond_mutex s) \<and>
     caller_inv (callers s ! 0) s"




section \<open>Evaluation\<close>

lemmas world_simps = upd_task_def set_pc_def launch_def timeout_def wakeup_def enter_callable_def

lemmas restart_simps = new_restart_instance_def stop_def set_single_shot_def set_periodic_def
  clock_def start_task_def set_spc_def start_def wakeup_caller_def call_start_def step_def

lemmas stopped_simps = new_stopped_instance_def start_one_shot_def start_periodic_def stop_sf_def
  clock_sf_def one_shot_task_def periodic_task_def step_sf_def

lemmas cpp_simps = new_Cpp_Timers_def start_one_shot_ct_def start_periodic_ct_def
  stop_periodic_def clock_ct_def one_shot_task_ct_def periodic_task_ct_def step_ct_def

section \<open>The restart-aware instance: executions and invariants\<close>

text \<open>
  C1, the code at two failing inputs.  The claim: a \<^verbatim>\<open>start\<close> on an instance whose loop
  is active waits for that loop to terminate before it launches the new one, so that at
  most one loop is active at any time.

  First execution, two threads calling \<^verbatim>\<open>start\<close>.  Thread 0 starts the timer and task 0
  blocks in the timed wait of \<^verbatim>\<open>clock\<close>.  Thread 0 calls \<^verbatim>\<open>start\<close> again: the exchange of
  line 53 fails and line 59 stores \<open>False\<close>.  Thread 1 calls \<^verbatim>\<open>start\<close>: its exchange
  succeeds on the cleared flag, it skips the wait of line 62 and launches task 1.
  Both tasks are inside the loop; after the deadline both find \<^verbatim>\<open>is_running\<close> set and
  both enter their callables.

  Second execution, one thread: \<^verbatim>\<open>start\<close>, \<^verbatim>\<open>stop\<close> while task 0 is blocked in the timed
  wait, \<^verbatim>\<open>start\<close>.  The exchange succeeds on the flag that \<^verbatim>\<open>stop\<close> cleared, and the
  second loop is launched beside the first.
\<close>

theorem restart_two_loops_active:
  "map_option active_loops
     (run [Call 0 1 0 (\<lambda>k. Value 1), CallerStep 0, CallerStep 0, CallerStep 0,
           Step 0, Step 0, Step 0, Step 0,
           Call 0 1 0 (\<lambda>k. Value 2), CallerStep 0, CallerStep 0,
           Call 1 1 0 (\<lambda>k. Value 3), CallerStep 1, CallerStep 1, CallerStep 1,
           Step 1, Step 1, Step 1, Step 1]
        (new_restart_instance 2 u v :: int restart_instance)) = Some 2
   \<and> map_option (\<lambda>s. (map pc (tasks s), calls s))
     (run [Call 0 1 0 (\<lambda>k. Value 1), CallerStep 0, CallerStep 0, CallerStep 0,
           Step 0, Step 0, Step 0, Step 0,
           Call 0 1 0 (\<lambda>k. Value 2), CallerStep 0, CallerStep 0,
           Call 1 1 0 (\<lambda>k. Value 3), CallerStep 1, CallerStep 1, CallerStep 1,
           Step 1, Step 1, Step 1, Step 1,
           Tick, Timeout 0, Timeout 1,
           Step 0, Step 0, Step 0, Step 0, Step 0, Step 0, Step 0, Step 0, Step 0,
           Step 1, Step 1, Step 1, Step 1, Step 1, Step 1, Step 1, Step 1, Step 1]
        (new_restart_instance 2 u v :: int restart_instance))
       = Some ([Invoking, Invoking], [0, 1])
   \<and> map_option active_loops
     (run [Call 0 1 0 (\<lambda>k. Value 1), CallerStep 0, CallerStep 0, CallerStep 0,
           Step 0, Step 0, Step 0, Step 0,
           Stop,
           Call 0 1 0 (\<lambda>k. Value 3), CallerStep 0, CallerStep 0, CallerStep 0,
           Step 1, Step 1, Step 1, Step 1]
        (new_restart_instance 1 u v :: int restart_instance)) = Some 2
   \<and> map_option (\<lambda>s. (map pc (tasks s), calls s))
     (run [Call 0 1 0 (\<lambda>k. Value 1), CallerStep 0, CallerStep 0, CallerStep 0,
           Step 0, Step 0, Step 0, Step 0,
           Stop,
           Call 0 1 0 (\<lambda>k. Value 3), CallerStep 0, CallerStep 0, CallerStep 0,
           Step 1, Step 1, Step 1, Step 1,
           Tick, Timeout 0, Timeout 1,
           Step 0, Step 0, Step 0, Step 0, Step 0, Step 0, Step 0, Step 0, Step 0,
           Step 1, Step 1, Step 1, Step 1, Step 1, Step 1, Step 1, Step 1, Step 1]
        (new_restart_instance 1 u v :: int restart_instance))
       = Some ([Invoking, Invoking], [0, 1])"
  by (simp add: restart_simps world_simps active_loops_def in_loop_def)

subsection \<open>One calling thread, no \<^verbatim>\<open>stop()\<close>\<close>

lemma tasks_at_update:
  "t < length ts \<Longrightarrow> tasks_at P (ts[t := T]) = (tasks_at P ts - {t}) \<union> (if P (pc T) then {t} else {})"
  by (auto simp: tasks_at_def nth_list_update split: if_splits)

lemma tasks_at_append:
  "tasks_at P (ts @ [T]) = tasks_at P ts \<union> (if P (pc T) then {length ts} else {})"
  by (auto simp: tasks_at_def nth_append less_Suc_eq split: if_splits)

lemma tasks_at_nth: "t < length ts \<Longrightarrow> t \<in> tasks_at P ts \<longleftrightarrow> P (pc (ts ! t))"
  by (simp add: tasks_at_def)

lemma tasks_at_bound: "i \<in> tasks_at P ts \<Longrightarrow> i < length ts"
  by (simp add: tasks_at_def)

lemma tasks_at_after_signal_holds: "tasks_at after_signal ts \<subseteq> tasks_at holds_exit ts"
  by (auto simp: tasks_at_def after_signal_def holds_exit_def split: pc.splits)

lemma owner_simps [simp]:
  "owner None = {}" "owner (Some (Caller c)) = {}" "owner (Some (Task i)) = {i}"
  by (simp_all add: owner_def)

lemma tasks_at_single: "A \<subseteq> {k} \<Longrightarrow> t \<in> A \<Longrightarrow> A = {t}"
  by blast

lemma tasks_at_owner: "A \<subseteq> owner m \<Longrightarrow> t \<in> A \<Longrightarrow> A = {t} \<and> m = Some (Task t)"
  by (auto simp: owner_def split: option.splits thread_id.splits)

lemma task_frame:
  assumes "start_task t s = Some s'" "t < length (tasks s)"
  shows "callers s' = callers s" "length (tasks s') = length (tasks s)"
  using assms
  by (cases "pc (tasks s ! t)";
      auto simp: start_task_def clock_def world_simps split: if_splits outcome.splits)+

lemma task_unfinished:
  assumes "start_task t s = Some s'" "t < length (tasks s)"
  shows "tasks_at unfinished (tasks s') \<subseteq> tasks_at unfinished (tasks s)"
  using assms tasks_at_nth [OF assms(2), of unfinished]
  by (cases "pc (tasks s ! t)")
     (auto simp: start_task_def clock_def world_simps tasks_at_update unfinished_def
        split: if_splits outcome.splits)

lemma task_holds:
  assumes "start_task t s = Some s'" "t < length (tasks s)"
    "tasks_at holds_exit (tasks s) \<subseteq> owner (running_cond_mutex s)"
  shows "tasks_at holds_exit (tasks s') \<subseteq> owner (running_cond_mutex s')"
  using assms tasks_at_nth [OF assms(2), of holds_exit] tasks_at_owner [OF assms(3), of t]
  by (cases "pc (tasks s ! t)")
     (auto simp: start_task_def clock_def world_simps tasks_at_update holds_exit_def
        split: if_splits outcome.splits)

lemma task_keeps_caller_mutex:
  assumes "start_task t s = Some s'" "t < length (tasks s)"
    "tasks_at holds_exit (tasks s) \<subseteq> owner (running_cond_mutex s)"
    "running_cond_mutex s = Some (Caller c)"
  shows "running_cond_mutex s' = Some (Caller c)"
  using assms tasks_at_nth [OF assms(2), of holds_exit]
  by (cases "pc (tasks s ! t)")
     (auto simp: start_task_def clock_def world_simps holds_exit_def
        split: if_splits outcome.splits)

lemma task_only_signalled:
  assumes "start_task t s = Some s'" "t < length (tasks s)"
    "tasks_at unfinished (tasks s) \<subseteq> {k}" "only_signalled s"
  shows "only_signalled s'"
  using assms tasks_at_nth [OF assms(2), of unfinished] tasks_at_nth [OF assms(2), of after_signal]
    tasks_at_single [OF assms(3), of t]
  unfolding only_signalled_def
  by (cases "pc (tasks s ! t)")
     (auto simp: start_task_def clock_def world_simps tasks_at_update unfinished_def after_signal_def
        split: if_splits outcome.splits)

lemma task_not_running:
  assumes "start_task t s = Some s'" "t < length (tasks s)"
    "tasks_at unfinished (tasks s) \<subseteq> {k}" "\<not> is_running s \<longrightarrow> tasks_at unfinished (tasks s) = {}"
  shows "\<not> is_running s' \<longrightarrow> tasks_at unfinished (tasks s') = {}"
  using assms tasks_at_nth [OF assms(2), of unfinished] tasks_at_single [OF assms(3), of t]
  by (cases "pc (tasks s ! t)")
     (auto simp: start_task_def clock_def world_simps tasks_at_update unfinished_def
        split: if_splits outcome.splits)

lemma task_running:
  assumes "start_task t s = Some s'" "t < length (tasks s)" "tasks_at unfinished (tasks s) = {}"
  shows "is_running s' = is_running s"
  using assms tasks_at_nth [OF assms(2), of unfinished]
  by (cases "pc (tasks s ! t)")
     (auto simp: start_task_def clock_def world_simps unfinished_def
        split: if_splits outcome.splits)




lemma single_inv_task:
  assumes st: "start_task t s = Some s'" and t: "t < length (tasks s)" and inv: "single_inv s"
  shows "single_inv s'"
proof -
  from inv have len: "length (callers s) = 1"
    and U: "tasks_at unfinished (tasks s) \<subseteq> {length (tasks s) - 1}"
    and H: "tasks_at holds_exit (tasks s) \<subseteq> owner (running_cond_mutex s)"
    and C: "caller_inv (callers s ! 0) s"
    by (simp_all add: single_inv_def)
  note fr = task_frame [OF st t]
  note U' = task_unfinished [OF st t]
  note H' = task_holds [OF st t H]
  note mc = task_keeps_caller_mutex [OF st t H]
  note os = task_only_signalled [OF st t U]
  note nr = task_not_running [OF st t U]
  note rn = task_running [OF st t]
  have "caller_inv (callers s ! 0) s'"
  proof (cases "callers s ! 0")
    case Idle
    with C nr show ?thesis by (simp add: caller_inv_def)
  next
    case (InStart p d r0 f)
    with C U' mc os nr rn show ?thesis
      by (cases p) (auto simp: caller_inv_def)
  qed
  with len fr U U' H' show ?thesis by (auto simp: single_inv_def)
qed

lemma single_inv_caller:
  assumes st: "start c s = Some s'" and c: "c < length (callers s)" and inv: "single_inv s"
  shows "single_inv s'"
proof -
  from inv c have c0: "c = 0" by (simp add: single_inv_def)
  note sub = tasks_at_after_signal_holds [of "tasks s"]
  show ?thesis
  proof (cases "callers s ! 0")
    case Idle
    with st c0 show ?thesis by (simp add: start_def)
  next
    case (InStart p d r0 f)
    with st c0 inv sub show ?thesis
      unfolding single_inv_def caller_inv_def only_signalled_def
      by (cases p)
         (auto simp: start_def set_spc_def launch_def tasks_at_append unfinished_def holds_exit_def
            split: if_splits)
  qed
qed

lemma tasks_at_same:
  "t < length ts \<Longrightarrow> P (pc T) = P (pc (ts ! t)) \<Longrightarrow> tasks_at P (ts[t := T]) = tasks_at P ts"
  by (auto simp: tasks_at_def nth_list_update split: if_splits)

lemma single_inv_cong:
  assumes "single_inv s"
    and "callers s' = callers s" "length (tasks s') = length (tasks s)"
    and "tasks_at unfinished (tasks s') = tasks_at unfinished (tasks s)"
    and "tasks_at holds_exit (tasks s') = tasks_at holds_exit (tasks s)"
    and "tasks_at after_signal (tasks s') = tasks_at after_signal (tasks s)"
    and "is_running s' = is_running s"
    and "finished_waiting_for_stop s' = finished_waiting_for_stop s"
    and "running_cond_mutex s' = running_cond_mutex s"
  shows "single_inv s'"
proof -
  have os: "only_signalled s' = only_signalled s"
    using assms(4,6,8) by (simp add: only_signalled_def)
  have "caller_inv c s' = caller_inv c s" for c
  proof (cases c)
    case Idle
    with assms(4,7) show ?thesis by (simp add: caller_inv_def)
  next
    case (InStart p d r0 f)
    with assms(4,7,9) os show ?thesis by (cases p) (simp_all add: caller_inv_def)
  qed
  with assms show ?thesis by (simp add: single_inv_def)
qed

lemma single_inv_timeout:
  assumes "timeout t s = Some s'" "single_inv s"
  shows "single_inv s'"
proof (rule single_inv_cong [OF assms(2)])
  from assms(1) have t: "t < length (tasks s)" by (simp add: timeout_def split: if_splits)
  from assms(1) t obtain dl where
    s': "pc (tasks s ! t) = ClockBlocked dl" "s' = set_pc t ClockTimedOut s"
    by (cases "pc (tasks s ! t)") (auto simp: timeout_def split: if_splits)
  from s' t show "tasks_at unfinished (tasks s') = tasks_at unfinished (tasks s)"
    by (simp add: set_pc_def upd_task_def tasks_at_same unfinished_def)
  from s' t show "tasks_at holds_exit (tasks s') = tasks_at holds_exit (tasks s)"
    by (simp add: set_pc_def upd_task_def tasks_at_same holds_exit_def)
  from s' t show "tasks_at after_signal (tasks s') = tasks_at after_signal (tasks s)"
    by (simp add: set_pc_def upd_task_def tasks_at_same after_signal_def)
qed (use assms(1) in \<open>auto simp: timeout_def set_pc_def upd_task_def split: if_splits pc.splits\<close>)

lemma single_inv_wakeup:
  assumes "wakeup t s = Some s'" "single_inv s"
  shows "single_inv s'"
proof (rule single_inv_cong [OF assms(2)])
  from assms(1) have t: "t < length (tasks s)" by (simp add: wakeup_def split: if_splits)
  from assms(1) t obtain p where
    s': "s' = set_pc t p s" "unfinished p = unfinished (pc (tasks s ! t))"
      "holds_exit p = holds_exit (pc (tasks s ! t))"
      "after_signal p = after_signal (pc (tasks s ! t))"
    by (cases "pc (tasks s ! t)")
       (auto simp: wakeup_def unfinished_def holds_exit_def after_signal_def split: if_splits)
  from s' t show "tasks_at unfinished (tasks s') = tasks_at unfinished (tasks s)"
    by (simp add: set_pc_def upd_task_def tasks_at_same)
  from s' t show "tasks_at holds_exit (tasks s') = tasks_at holds_exit (tasks s)"
    by (simp add: set_pc_def upd_task_def tasks_at_same)
  from s' t show "tasks_at after_signal (tasks s') = tasks_at after_signal (tasks s)"
    by (simp add: set_pc_def upd_task_def tasks_at_same)
qed (use assms(1) in \<open>auto simp: wakeup_def set_pc_def upd_task_def split: if_splits pc.splits\<close>)

lemma single_inv_wakeup_caller:
  assumes "wakeup_caller c s = Some s'" "single_inv s"
  shows "single_inv s'"
proof -
  from assms have c0: "c = 0" by (auto simp: single_inv_def wakeup_caller_def split: if_splits)
  show ?thesis
  proof (cases "callers s ! 0")
    case Idle
    with assms c0 show ?thesis by (simp add: wakeup_caller_def split: if_splits)
  next
    case (InStart p d r0 f)
    with assms c0 show ?thesis
      unfolding single_inv_def caller_inv_def only_signalled_def
      by (cases p) (auto simp: wakeup_caller_def set_spc_def split: if_splits)
  qed
qed

lemma single_inv_call:
  assumes "call_start c d r0 f s = Some s'" "single_inv s"
  shows "single_inv s'"
proof -
  from assms have c0: "c = 0" by (auto simp: single_inv_def call_start_def split: if_splits)
  show ?thesis
  proof (cases "callers s ! 0")
    case Idle
    with assms c0 show ?thesis
      unfolding single_inv_def caller_inv_def
      by (auto simp: call_start_def split: if_splits)
  next
    case (InStart p d' r0' f')
    with assms c0 show ?thesis by (simp add: call_start_def split: if_splits)
  qed
qed

lemma single_inv_flags:
  "single_inv s \<Longrightarrow> single_inv (s\<lparr>sys_now := n\<rparr>)"
  "single_inv s \<Longrightarrow> single_inv (s\<lparr>is_single_shot := b\<rparr>)"
  unfolding single_inv_def caller_inv_def only_signalled_def
  by (auto split: caller.splits spc.splits)

lemma single_inv_step:
  assumes "step e s = Some s'" "e \<noteq> Stop" "single_inv s"
  shows "single_inv s'"
proof (cases e)
  case Tick
  with assms show ?thesis by (auto simp: step_def single_inv_flags)
next
  case (Step t)
  with assms show ?thesis by (auto simp: step_def split: if_splits intro: single_inv_task)
next
  case (Timeout t)
  with assms show ?thesis by (auto simp: step_def intro: single_inv_timeout)
next
  case (Wakeup th)
  with assms show ?thesis
    by (cases th) (auto simp: step_def intro: single_inv_wakeup single_inv_wakeup_caller)
next
  case Stop
  with assms show ?thesis by simp
next
  case SetSingleShot
  with assms show ?thesis by (auto simp: step_def set_single_shot_def single_inv_flags)
next
  case SetPeriodic
  with assms show ?thesis by (auto simp: step_def set_periodic_def single_inv_flags)
next
  case (Call c d r0 f)
  with assms show ?thesis by (auto simp: step_def intro: single_inv_call)
next
  case (CallerStep c)
  with assms show ?thesis by (auto simp: step_def split: if_splits intro: single_inv_caller)
next
  case (StartOneShot d r0 f)
  with assms show ?thesis by (simp add: step_def)
next
  case (StartPeriodic d r0 f)
  with assms show ?thesis by (simp add: step_def)
qed

lemma single_inv_run:
  "run evs s = Some s' \<Longrightarrow> Stop \<notin> set evs \<Longrightarrow> single_inv s \<Longrightarrow> single_inv s'"
proof (induction evs arbitrary: s)
  case Nil
  then show ?case by simp
next
  case (Cons e evs)
  from Cons.prems obtain s1 where s1: "step e s = Some s1" "run evs s1 = Some s'"
    by (auto split: option.splits)
  from Cons.prems have "e \<noteq> Stop" "Stop \<notin> set evs" by auto
  with s1 Cons.prems(3) Cons.IH show ?case
    using single_inv_step by blast
qed

lemma single_inv_new: "single_inv (new_restart_instance 1 u v)"
  by (simp add: single_inv_def caller_inv_def new_restart_instance_def tasks_at_def)

lemma active_loops_at: "active_loops s = card (tasks_at in_loop (tasks s))"
  by (simp add: active_loops_def tasks_at_def length_filter_conv_card)

lemma in_loop_unfinished: "in_loop p \<Longrightarrow> unfinished p"
  by (cases p) (simp_all add: in_loop_def unfinished_def)

lemma tasks_at_in_loop_unfinished: "tasks_at in_loop ts \<subseteq> tasks_at unfinished ts"
  by (auto simp: tasks_at_def in_loop_unfinished)

text \<open>What the wait of line 62 does achieve: when one thread alone calls \<^verbatim>\<open>start\<close>, any
  number of times, and \<^verbatim>\<open>stop()\<close> is never called, at most one task is inside its loop in
  every reachable state.\<close>

lemma one_thread_one_loop:
  assumes "run evs (new_restart_instance 1 u v) = Some s" "Stop \<notin> set evs"
  shows "active_loops s \<le> 1"
proof -
  have "single_inv s"
    using assms single_inv_new by (rule single_inv_run)
  then have "tasks_at in_loop (tasks s) \<subseteq> {length (tasks s) - 1}"
    using tasks_at_in_loop_unfinished [of "tasks s"] by (auto simp: single_inv_def)
  then have "card (tasks_at in_loop (tasks s)) \<le> card {length (tasks s) - 1}"
    by (intro card_mono) auto
  then show ?thesis by (simp add: active_loops_at)
qed


subsection \<open>The timed wait of \<^verbatim>\<open>clock\<close> with its predicate\<close>

text \<open>Whatever happens, a task leaves the timed wait of the restart-aware \<^verbatim>\<open>clock\<close>
  (lines 137 to 140) only when its predicate finds \<^verbatim>\<open>is_running\<close> clear or when the
  deadline has passed: a wake-up alone sends it back to the predicate.\<close>

lemma restart_step_other:
  assumes "step e s = Some s'" "t < length (tasks s)" "pc (tasks s' ! t) \<noteq> pc (tasks s ! t)"
  shows "e = Step t \<or> e = Timeout t \<or> e = Wakeup (Task t)"
proof (cases e)
  case (Step t')
  with assms show ?thesis
    by (cases "pc (tasks s ! t')")
       (auto simp: step_def start_task_def clock_def world_simps nth_list_update
          split: if_splits outcome.splits)
next
  case (Timeout t')
  with assms show ?thesis
    by (cases "pc (tasks s ! t')")
       (auto simp: step_def world_simps nth_list_update split: if_splits)
next
  case (Wakeup th)
  with assms show ?thesis
  proof (cases th)
    case (Caller c)
    with assms Wakeup show ?thesis
      by (auto simp: step_def wakeup_caller_def set_spc_def
          split: if_splits caller.splits spc.splits)
  next
    case (Task t')
    with assms Wakeup show ?thesis
      by (cases "pc (tasks s ! t')")
         (auto simp: step_def world_simps nth_list_update split: if_splits)
  qed
next
  case (Call c d r0 f)
  with assms show ?thesis
    by (auto simp: step_def call_start_def split: if_splits caller.splits)
next
  case (CallerStep c)
  with assms show ?thesis
    by (cases "callers s ! c")
       (auto simp: step_def start_def set_spc_def launch_def nth_append
          split: if_splits spc.splits)
qed (use assms in \<open>auto simp: step_def stop_def set_single_shot_def set_periodic_def\<close>)

lemma restart_clock_not_early:
  assumes "step e s = Some s'" "t < length (tasks s)"
    and "pc (tasks s ! t) = ClockWait dl \<or> pc (tasks s ! t) = ClockBlocked dl \<or>
         pc (tasks s ! t) = ClockWoken dl"
    and "pc (tasks s' ! t) = ClockSet \<or> pc (tasks s' ! t) = ClockTimedOut"
  shows "\<not> is_running s \<or> dl \<le> sys_now s"
proof -
  from assms(3,4) have "pc (tasks s' ! t) \<noteq> pc (tasks s ! t)" by auto
  with assms(1,2) have "e = Step t \<or> e = Timeout t \<or> e = Wakeup (Task t)"
    by (rule restart_step_other)
  with assms show ?thesis
    by (auto simp: step_def start_task_def clock_def world_simps split: if_splits)
qed

subsection \<open>Invariants\<close>

lemma list_ex_split:
  "i < length xs \<Longrightarrow> list_ex P xs = (P (xs ! i) \<or> others i P xs)"
  unfolding list_ex_length others_def by (cases "P (xs ! i)") auto

lemma list_ex_update:
  assumes "i < length xs"
  shows "list_ex P (xs[i := y]) = (P y \<or> others i P xs)"
proof -
  have "list_ex P (xs[i := y]) = (P ((xs[i := y]) ! i) \<or> others i P (xs[i := y]))"
    using assms by (simp add: list_ex_split [of i])
  moreover have "others i P (xs[i := y]) = others i P xs"
    by (auto simp: others_def)
  ultimately show ?thesis using assms by simp
qed

lemma running_inv_task:
  "start_task t s = Some s' \<Longrightarrow> t < length (tasks s) \<Longrightarrow> running_inv s \<Longrightarrow> running_inv s'"
  unfolding running_inv_def
  by (cases "pc (tasks s ! t)")
     (auto simp: start_task_def clock_def world_simps leaving_def list_ex_update
           list_ex_split [of t "tasks s"] split: if_splits outcome.splits)

lemma stop_inv_task:
  "start_task t s = Some s' \<Longrightarrow> t < length (tasks s) \<Longrightarrow> stop_inv s \<Longrightarrow> stop_inv s'"
  unfolding stop_inv_def
  by (cases "pc (tasks s ! t)")
     (auto simp: start_task_def clock_def world_simps signalled_def list_ex_update
           list_ex_split [of t "tasks s"] split: if_splits outcome.splits)

lemma result_inv_task:
  "start_task t s = Some s' \<Longrightarrow> t < length (tasks s) \<Longrightarrow> result_inv s \<Longrightarrow> result_inv s'"
  unfolding result_inv_def
  by (cases "pc (tasks s ! t)")
     (auto simp: start_task_def clock_def world_simps nth_list_update
           split: if_splits outcome.splits)

lemma running_inv_caller:
  assumes "start c s = Some s'" "c < length (callers s)" "running_inv s"
  shows "running_inv s'"
proof (cases "callers s ! c")
  case Idle
  with assms show ?thesis by (simp add: start_def)
next
  case (InStart p d r0 f)
  with assms show ?thesis
    unfolding running_inv_def
    by (cases p)
       (auto simp: start_def set_spc_def world_simps launching_def leaving_def list_ex_update
           list_ex_split [of c "callers s"] split: if_splits)
qed

lemma stop_inv_caller:
  assumes "start c s = Some s'" "c < length (callers s)" "stop_inv s"
  shows "stop_inv s'"
proof (cases "callers s ! c")
  case Idle
  with assms show ?thesis by (simp add: start_def)
next
  case (InStart p d r0 f)
  with assms show ?thesis
    unfolding stop_inv_def
    by (cases p)
       (auto simp: start_def set_spc_def world_simps awaiting_def signalled_def list_ex_update
           list_ex_split [of c "callers s"] split: if_splits)
qed

lemma result_inv_caller:
  assumes "start c s = Some s'" "c < length (callers s)" "result_inv s"
  shows "result_inv s'"
proof (cases "callers s ! c")
  case Idle
  with assms show ?thesis by (simp add: start_def)
next
  case (InStart p d r0 f)
  with assms show ?thesis
    unfolding result_inv_def
    by (cases p)
       (auto simp: start_def set_spc_def world_simps nth_append split: if_splits)
qed

lemma restart_inv_timeout:
  "timeout t s = Some s' \<Longrightarrow> restart_inv s \<Longrightarrow> restart_inv s'"
  unfolding restart_inv_def running_inv_def stop_inv_def result_inv_def
  by (cases "pc (tasks s ! t)")
     (auto simp: world_simps leaving_def signalled_def list_ex_update nth_list_update
           list_ex_split [of t "tasks s"] split: if_splits)

lemma restart_inv_wakeup:
  "wakeup t s = Some s' \<Longrightarrow> restart_inv s \<Longrightarrow> restart_inv s'"
  unfolding restart_inv_def running_inv_def stop_inv_def result_inv_def
  by (cases "pc (tasks s ! t)")
     (auto simp: world_simps leaving_def signalled_def list_ex_update nth_list_update
           list_ex_split [of t "tasks s"] split: if_splits)

lemma restart_inv_wakeup_caller:
  assumes "wakeup_caller c s = Some s'" "restart_inv s"
  shows "restart_inv s'"
proof (cases "callers s ! c")
  case Idle
  with assms show ?thesis by (simp add: wakeup_caller_def split: if_splits)
next
  case (InStart p d r0 f)
  with assms show ?thesis
    unfolding restart_inv_def running_inv_def stop_inv_def result_inv_def
    by (cases p)
       (auto simp: wakeup_caller_def set_spc_def launching_def awaiting_def list_ex_update
           list_ex_split [of c "callers s"] split: if_splits)
qed

lemma restart_inv_call:
  assumes "call_start c d r0 f s = Some s'" "restart_inv s"
  shows "restart_inv s'"
proof (cases "callers s ! c")
  case Idle
  with assms show ?thesis
    unfolding restart_inv_def running_inv_def stop_inv_def result_inv_def
    by (auto simp: call_start_def launching_def awaiting_def list_ex_update
           list_ex_split [of c "callers s"] split: if_splits)
next
  case (InStart p d' r0' f')
  with assms show ?thesis by (simp add: call_start_def split: if_splits)
qed

lemma restart_inv_step:
  assumes "step e s = Some s'" "restart_inv s"
  shows "restart_inv s'"
proof (cases e)
  case Tick
  with assms show ?thesis
    by (auto simp: step_def restart_inv_def running_inv_def stop_inv_def result_inv_def)
next
  case (Step t)
  with assms show ?thesis
    by (auto simp: step_def restart_inv_def split: if_splits
        intro: running_inv_task stop_inv_task result_inv_task)
next
  case (Timeout t)
  with assms show ?thesis by (auto simp: step_def intro: restart_inv_timeout)
next
  case (Wakeup th)
  with assms show ?thesis
    by (cases th) (auto simp: step_def intro: restart_inv_wakeup restart_inv_wakeup_caller)
next
  case Stop
  with assms show ?thesis
    by (auto simp: step_def stop_def restart_inv_def running_inv_def stop_inv_def result_inv_def)
next
  case SetSingleShot
  with assms show ?thesis
    by (auto simp: step_def set_single_shot_def restart_inv_def running_inv_def stop_inv_def
        result_inv_def)
next
  case SetPeriodic
  with assms show ?thesis
    by (auto simp: step_def set_periodic_def restart_inv_def running_inv_def stop_inv_def
        result_inv_def)
next
  case (Call c d r0 f)
  with assms show ?thesis by (auto simp: step_def intro: restart_inv_call)
next
  case (CallerStep c)
  with assms show ?thesis
    by (auto simp: step_def restart_inv_def split: if_splits
        intro: running_inv_caller stop_inv_caller result_inv_caller)
next
  case (StartOneShot d r0 f)
  with assms show ?thesis by (simp add: step_def)
next
  case (StartPeriodic d r0 f)
  with assms show ?thesis by (simp add: step_def)
qed

lemma restart_inv_run:
  "run evs s = Some s' \<Longrightarrow> restart_inv s \<Longrightarrow> restart_inv s'"
proof (induction evs arbitrary: s)
  case Nil
  then show ?case by simp
next
  case (Cons e evs)
  then show ?case by (auto split: option.splits dest: restart_inv_step)
qed

lemma restart_inv_new: "restart_inv (new_restart_instance n u v)"
  by (simp add: restart_inv_def running_inv_def stop_inv_def result_inv_def
      new_restart_instance_def)

lemma restart_inv_reachable:
  "run evs (new_restart_instance n u v) = Some s \<Longrightarrow> restart_inv s"
  using restart_inv_run restart_inv_new by blast



subsection \<open>C5: the termination bookkeeping and a throwing callable\<close>




subsection \<open>C6: a negative duration\<close>




subsection \<open>C10: the value of the future\<close>

text \<open>
  C10.  In the restart-aware \<^verbatim>\<open>start\<close> the future of a task that has returned holds
  \<^verbatim>\<open>last_return_of_callable\<close>; if the task never entered its callable, this is the
  content \<open>default_result\<close> that the variable had when it was declared in line 79, the
  value a callable returning that content would deliver as well.  A run stopped during
  its wait does return: a task blocked in the timed wait, once \<^verbatim>\<open>stop()\<close> is called and
  it is woken, makes its future ready in fourteen actions of its own, without
  entering its callable.
\<close>

theorem cancelled_run_returns_default:
  "(run evs (new_restart_instance n u v) = Some s \<and> t < length (tasks s) \<and>
      pc (tasks s ! t) = Returned r
    \<longrightarrow> r = last_return_of_callable (tasks s ! t) \<and>
        (t \<notin> set (calls s) \<longrightarrow> r = default_result (tasks s ! t)))
   \<and> (t < length (tasks q) \<and> pc (tasks q ! t) = ClockBlocked dl \<and>
        wait_cond_mutex q = None \<and> running_cond_mutex q = None
      \<longrightarrow> map_option (\<lambda>q'. (pc (tasks q' ! t), calls q'))
            (run [Stop, Wakeup (Task t),
                  Step t, Step t, Step t, Step t, Step t, Step t, Step t,
                  Step t, Step t, Step t, Step t, Step t, Step t, Step t] q)
          = Some (Returned (last_return_of_callable (tasks q ! t)), calls q))"
proof (intro conjI impI)
  assume a: "run evs (new_restart_instance n u v) = Some s \<and> t < length (tasks s) \<and>
      pc (tasks s ! t) = Returned r"
  then have "restart_inv s" using restart_inv_reachable by blast
  then have inv: "result_inv s" by (simp add: restart_inv_def)
  from inv a show "r = last_return_of_callable (tasks s ! t)"
    by (auto simp: result_inv_def)
  assume "t \<notin> set (calls s)"
  with inv a show "r = default_result (tasks s ! t)"
    by (auto simp: result_inv_def)
next
  assume "t < length (tasks q) \<and> pc (tasks q ! t) = ClockBlocked dl \<and>
        wait_cond_mutex q = None \<and> running_cond_mutex q = None"
  then show "map_option (\<lambda>q'. (pc (tasks q' ! t), calls q'))
            (run [Stop, Wakeup (Task t),
                  Step t, Step t, Step t, Step t, Step t, Step t, Step t,
                  Step t, Step t, Step t, Step t, Step t, Step t, Step t] q)
          = Some (Returned (last_return_of_callable (tasks q ! t)), calls q)"
    by (simp add: stop_def clock_def start_task_def step_def world_simps)
qed

theorem cancelled_run_returns_default_witness:
  "map_option (\<lambda>s. (map pc (tasks s), map default_result (tasks s), calls s))
     (run [Call 0 5 42 (\<lambda>k. Value 1), CallerStep 0, CallerStep 0, CallerStep 0,
           Step 0, Step 0, Step 0, Step 0, Stop, Wakeup (Task 0),
           Step 0, Step 0, Step 0, Step 0, Step 0, Step 0, Step 0, Step 0, Step 0, Step 0,
           Step 0, Step 0, Step 0, Step 0]
        (new_restart_instance 1 False False :: int restart_instance))
     = Some ([Returned 42], [42], [])"
  using cancelled_run_returns_default
    [of "[Call 0 5 42 (\<lambda>k. Value 1), CallerStep 0, CallerStep 0, CallerStep 0,
          Step 0, Step 0, Step 0, Step 0, Stop, Wakeup (Task 0),
          Step 0, Step 0, Step 0, Step 0, Step 0, Step 0, Step 0, Step 0, Step 0, Step 0,
          Step 0, Step 0, Step 0, Step 0]"
        1 False False
        "the (run [Call 0 5 42 (\<lambda>k. Value 1), CallerStep 0, CallerStep 0, CallerStep 0,
          Step 0, Step 0, Step 0, Step 0, Stop, Wakeup (Task 0),
          Step 0, Step 0, Step 0, Step 0, Step 0, Step 0, Step 0, Step 0, Step 0, Step 0,
          Step 0, Step 0, Step 0, Step 0]
          (new_restart_instance 1 False False :: int restart_instance))"
        0 42
        "the (run [Call 0 5 42 (\<lambda>k. Value 1), CallerStep 0, CallerStep 0, CallerStep 0,
          Step 0, Step 0, Step 0, Step 0]
          (new_restart_instance 1 False False :: int restart_instance))"
        5]
  by (simp add: restart_simps world_simps)

section \<open>The stopped-flag instance: executions and invariants\<close>

text \<open>
  C3, the code at the failing input.  The claim: when the timed wait of a periodic run
  returns because a stop was observed, the loop terminates without invoking the callback
  for that iteration.

  Stopped-flag instance: \<^verbatim>\<open>start_periodic(10, f)\<close>; task 0 passes the loop test and blocks
  in the timed wait; \<^verbatim>\<open>stop()\<close> at time 0; the task is woken, the predicate of line 260
  finds \<^verbatim>\<open>stopped\<close> set and \<^verbatim>\<open>clock\<close> returns.  Line 242 then invokes the callable, which
  returns 7, and only the loop test of line 232 ends the run.
\<close>

theorem periodic_invokes_after_interrupted_wait:
  "map_option (\<lambda>s. (map pc (tasks s), calls s, sys_now s, stopped s))
     (run_sf [StartPeriodic 10 0 (\<lambda>k. Value 7),
              Step 0, Step 0, Step 0, Step 0,
              Stop, Wakeup (Task 0),
              Step 0, Step 0, Step 0, Step 0, Step 0, Step 0, Step 0, Step 0, Step 0, Step 0,
              Step 0, Step 0]
        (new_stopped_instance u :: int stopped_instance))
     = Some ([Returned 7], [0], 0, True)"
  by (simp add: stopped_simps world_simps)

subsection \<open>The timed wait of \<^verbatim>\<open>clock\<close> with its predicate\<close>

text \<open>The same for the \<^verbatim>\<open>clock\<close> of the stopped-flag instance (lines 258 to 261): the
  timed wait is left only when \<^verbatim>\<open>stopped\<close> is set or the deadline has passed.\<close>

lemma stopped_step_other:
  assumes "step_sf e s = Some s'" "t < length (tasks s)" "pc (tasks s' ! t) \<noteq> pc (tasks s ! t)"
  shows "e = Step t \<or> e = Timeout t \<or> e = Wakeup (Task t)"
proof (cases e)
  case (Step t')
  show ?thesis
  proof (cases "body (tasks s ! t')")
    case Loop
    with assms Step show ?thesis by (simp add: step_sf_def split: if_splits)
  next
    case OneShot
    with assms Step show ?thesis
      by (cases "pc (tasks s ! t')")
         (auto simp: step_sf_def one_shot_task_def clock_sf_def world_simps nth_list_update
            split: if_splits outcome.splits)
  next
    case Periodic
    with assms Step show ?thesis
      by (cases "pc (tasks s ! t')")
         (auto simp: step_sf_def periodic_task_def clock_sf_def world_simps nth_list_update
            split: if_splits outcome.splits)
  qed
next
  case (Timeout t')
  with assms show ?thesis
    by (cases "pc (tasks s ! t')")
       (auto simp: step_sf_def world_simps nth_list_update split: if_splits)
next
  case (Wakeup th)
  show ?thesis
  proof (cases th)
    case (Caller c)
    with assms Wakeup show ?thesis by (simp add: step_sf_def)
  next
    case (Task t')
    with assms Wakeup show ?thesis
      by (cases "pc (tasks s ! t')")
         (auto simp: step_sf_def world_simps nth_list_update split: if_splits)
  qed
next
  case (StartOneShot d r0 f)
  with assms show ?thesis
    by (auto simp: step_sf_def start_one_shot_def launch_def nth_append)
next
  case (StartPeriodic d r0 f)
  with assms show ?thesis
    by (auto simp: step_sf_def start_periodic_def launch_def nth_append)
qed (use assms in \<open>auto simp: step_sf_def stop_sf_def\<close>)

lemma stopped_clock_not_early:
  assumes "step_sf e s = Some s'" "t < length (tasks s)"
    and "pc (tasks s ! t) = ClockWait dl \<or> pc (tasks s ! t) = ClockBlocked dl \<or>
         pc (tasks s ! t) = ClockWoken dl"
    and "pc (tasks s' ! t) = ClockSet \<or> pc (tasks s' ! t) = ClockTimedOut"
  shows "stopped s \<or> dl \<le> sys_now s"
proof -
  from assms(3,4) have "pc (tasks s' ! t) \<noteq> pc (tasks s ! t)" by auto
  with assms(1,2) have "e = Step t \<or> e = Timeout t \<or> e = Wakeup (Task t)"
    by (rule stopped_step_other)
  with assms show ?thesis
    by (cases "body (tasks s ! t)")
       (auto simp: step_sf_def one_shot_task_def periodic_task_def clock_sf_def world_simps
          split: if_splits)
qed

subsection \<open>A cancelled one-shot run\<close>

lemma cancelled_own_step:
  "one_shot_task t s = Some s' \<Longrightarrow> cancelled t r0 k s \<Longrightarrow> cancelled t r0 k s'"
  unfolding cancelled_def
  by (cases "pc (tasks s ! t)")
     (auto simp: one_shot_task_def clock_sf_def before_check_def world_simps split: if_splits)

lemma cancelled_other_one_shot:
  "one_shot_task t' s = Some s' \<Longrightarrow> t' \<noteq> t \<Longrightarrow> cancelled t r0 k s \<Longrightarrow> cancelled t r0 k s'"
  unfolding cancelled_def
  by (cases "pc (tasks s ! t')")
     (auto simp: one_shot_task_def clock_sf_def world_simps split: if_splits outcome.splits)

lemma cancelled_other_periodic:
  "periodic_task t' s = Some s' \<Longrightarrow> t' \<noteq> t \<Longrightarrow> cancelled t r0 k s \<Longrightarrow> cancelled t r0 k s'"
  unfolding cancelled_def
  by (cases "pc (tasks s ! t')")
     (auto simp: periodic_task_def clock_sf_def world_simps split: if_splits outcome.splits)

lemma cancelled_timeout:
  "timeout t' s = Some s' \<Longrightarrow> cancelled t r0 k s \<Longrightarrow> cancelled t r0 k s'"
  unfolding cancelled_def
  by (cases "pc (tasks s ! t')")
     (auto simp: before_check_def world_simps nth_list_update split: if_splits)

lemma cancelled_wakeup:
  "wakeup t' s = Some s' \<Longrightarrow> cancelled t r0 k s \<Longrightarrow> cancelled t r0 k s'"
  unfolding cancelled_def
  by (cases "pc (tasks s ! t')")
     (auto simp: before_check_def world_simps nth_list_update split: if_splits)

lemma cancelled_step:
  assumes "step_sf e s = Some s'" "\<not> starts e" "cancelled t r0 k s"
  shows "cancelled t r0 k s'"
proof (cases e)
  case Tick
  with assms show ?thesis by (auto simp: step_sf_def cancelled_def)
next
  case (Step t')
  show ?thesis
  proof (cases "t' = t")
    case True
    from assms(3) have "body (tasks s ! t) = OneShot" by (simp add: cancelled_def)
    with assms Step True have "one_shot_task t s = Some s'"
      by (simp add: step_sf_def split: if_splits)
    then show ?thesis using assms(3) by (rule cancelled_own_step)
  next
    case False
    with assms Step show ?thesis
      by (auto simp: step_sf_def split: if_splits body.splits
          intro: cancelled_other_one_shot cancelled_other_periodic)
  qed
next
  case (Timeout t')
  with assms show ?thesis by (auto simp: step_sf_def intro: cancelled_timeout)
next
  case (Wakeup th)
  with assms show ?thesis
    by (cases th) (auto simp: step_sf_def intro: cancelled_wakeup)
next
  case Stop
  with assms show ?thesis by (auto simp: step_sf_def stop_sf_def cancelled_def)
qed (use assms in \<open>auto simp: step_sf_def starts_def\<close>)

lemma cancelled_run:
  "run_sf evs s = Some s' \<Longrightarrow> \<forall>e\<in>set evs. \<not> starts e \<Longrightarrow> cancelled t r0 k s
   \<Longrightarrow> cancelled t r0 k s'"
proof (induction evs arbitrary: s)
  case Nil
  then show ?case by simp
next
  case (Cons e evs)
  then show ?case
    by (auto split: option.splits dest: cancelled_step)
qed

lemma cancelled_after_stop:
  assumes "run_sf (Stop # evs) s = Some s'"
    and "\<forall>e\<in>set evs. \<not> starts e"
    and "t < length (tasks s)"
    and "body (tasks s ! t) = OneShot"
    and "before_check (pc (tasks s ! t))"
  shows "cancelled t (default_result (tasks s ! t)) (count_list (calls s) t) s'"
proof -
  have c: "cancelled t (default_result (tasks s ! t)) (count_list (calls s) t) (stop_sf s)"
    using assms(3-5) by (simp add: cancelled_def stop_sf_def)
  have r: "run_sf evs (stop_sf s) = Some s'"
    using assms(1) by (simp add: step_sf_def)
  show ?thesis by (rule cancelled_run [OF r assms(2) c])
qed

lemma blocked_one_shot_reachable:
  "run_sf [StartOneShot 10 0 (\<lambda>k. Value 7), Step 0, Step 0, Step 0] (new_stopped_instance False)
   = Some blocked_one_shot"
  by (simp add: stopped_simps world_simps blocked_one_shot_def)

subsection \<open>C2: a stop during the wait of a one-shot run\<close>

text \<open>
  C2, counterexample.  The claim: for every one-shot run, if a stop is requested while
  the timed wait is in progress, the callback is never invoked for that run.

  First execution.  \<^verbatim>\<open>Cpp_Timers::start_one_shot(2, f)\<close>; the task blocks in the timed
  wait; the only stop operation of the class, \<^verbatim>\<open>stop_periodic()\<close>, is called at time 0;
  the deadline passes and the callable is invoked all the same: the lambda of lines 49
  to 61 reads no flag.

  Second execution, the stopped-flag instance.  \<^verbatim>\<open>start_one_shot(2, f)\<close>; the task blocks
  in the timed wait; \<^verbatim>\<open>stop()\<close> at time 0; \<^verbatim>\<open>start_one_shot(5, g)\<close> resets the flag (line
  205); at time 2 the wait of the first task times out, the test of line 216 finds the
  flag clear, and the callable of the stopped run is invoked.
\<close>

theorem one_shot_invoked_after_stop:
  "map_option (\<lambda>s. (map pc (tasks s), calls s, sys_now s, stop_flag s))
     (run_ct [StartOneShot 2 0 (\<lambda>k. Value 7), Step 0, Step 0, Step 0,
              Stop, Tick, Tick, Timeout 0,
              Step 0, Step 0, Step 0, Step 0, Step 0, Step 0, Step 0, Step 0, Step 0]
        (new_Cpp_Timers True :: int Cpp_Timers))
     = Some ([Returned 7], [0], 2, False)
   \<and> map_option (\<lambda>s. (map pc (tasks s), calls s, sys_now s))
     (run_sf [StartOneShot 2 0 (\<lambda>k. Value 7), Step 0, Step 0, Step 0,
              Stop, StartOneShot 5 0 (\<lambda>k. Value 8), Tick, Tick, Timeout 0,
              Step 0, Step 0, Step 0, Step 0, Step 0, Step 0, Step 0, Step 0, Step 0, Step 0]
        (new_stopped_instance False :: int stopped_instance))
     = Some ([Returned 7, ClockLock], [0], 2)"
  by (simp add: cpp_simps stopped_simps world_simps)

text \<open>
  C2, amended.  In the stopped-flag \<^verbatim>\<open>async_timers::instance\<close>: if \<^verbatim>\<open>stop()\<close> is called
  while a one-shot task has not yet passed the test of \<^verbatim>\<open>stopped\<close> in line 216 (so, in
  particular, while its timed wait is in progress) and no start operation is called
  afterwards, then the task never enters its callable, whatever else happens.
\<close>

theorem one_shot_stop_cancels:
  assumes "run_sf (Stop # evs) s = Some s'"
    and "\<forall>e\<in>set evs. \<not> starts e"
    and "t < length (tasks s)"
    and "body (tasks s ! t) = OneShot"
    and "before_check (pc (tasks s ! t))"
  shows "count_list (calls s') t = count_list (calls s) t"
  using cancelled_after_stop [OF assms] by (simp add: cancelled_def)

theorem one_shot_stop_cancels_witness:
  "map_option (\<lambda>s'. (map pc (tasks s'), count_list (calls s') 0, sys_now s'))
     (run_sf [Stop, Tick, Wakeup (Task 0),
              Step 0, Step 0, Step 0, Step 0, Step 0, Step 0, Step 0, Step 0, Step 0]
        blocked_one_shot)
     = Some ([Returned 0], count_list (calls blocked_one_shot) 0, 1)"
  using one_shot_stop_cancels
    [of "[Tick, Wakeup (Task 0),
          Step 0, Step 0, Step 0, Step 0, Step 0, Step 0, Step 0, Step 0, Step 0]"
        blocked_one_shot
        "the (run_sf [Stop, Tick, Wakeup (Task 0),
                      Step 0, Step 0, Step 0, Step 0, Step 0, Step 0, Step 0, Step 0, Step 0]
                blocked_one_shot)"
        0]
  by (simp add: stopped_simps world_simps starts_def before_check_def blocked_one_shot_def)

subsection \<open>C7: the result of a cancelled one-shot run\<close>

text \<open>
  C7, counterexample.  The claim: the future of a cancelled one-shot run resolves to an
  outcome distinct from every value an invocation of the callback could produce.

  With return type \<^verbatim>\<open>int\<close>: the run stopped during its wait never enters its callable
  and its future holds \<open>0\<close>, the value-initialised \<^verbatim>\<open>int{}\<close> of line 218; the run that is
  not stopped and whose callable returns \<open>0\<close> delivers the same \<open>0\<close>.
\<close>

theorem cancelled_result_is_ordinary_value:
  "map_option (\<lambda>s. (map pc (tasks s), calls s))
     (run_sf [StartOneShot 10 0 (\<lambda>k. Value 7), Step 0, Step 0, Step 0,
              Stop, Wakeup (Task 0),
              Step 0, Step 0, Step 0, Step 0, Step 0, Step 0, Step 0, Step 0, Step 0]
        (new_stopped_instance False :: int stopped_instance))
     = Some ([Returned 0], [])
   \<and> map_option (\<lambda>s. (map pc (tasks s), calls s))
     (run_sf [StartOneShot 1 0 (\<lambda>k. Value 0), Step 0, Step 0, Step 0,
              Tick, Timeout 0,
              Step 0, Step 0, Step 0, Step 0, Step 0, Step 0, Step 0, Step 0, Step 0, Step 0]
        (new_stopped_instance False :: int stopped_instance))
     = Some ([Returned 0], [0])"
  by (simp add: stopped_simps world_simps)

text \<open>
  C7, amended.  The future of a one-shot run of the stopped-flag instance that is
  cancelled by \<^verbatim>\<open>stop()\<close> before the test of line 216, with no start operation called
  afterwards, can only resolve to the value-initialised result object
  \<^verbatim>\<open>result_of_t<...>{}\<close> (\<open>default_result\<close>), an ordinary value of the return type, and
  the task has not entered its callable.  It does resolve: a task blocked in the timed
  wait, once stopped and woken, returns that value in nine actions of its own.
\<close>

theorem cancelled_one_shot_returns_default:
  "(run_sf (Stop # evs) s = Some s' \<and> (\<forall>e\<in>set evs. \<not> starts e) \<and>
      t < length (tasks s) \<and> body (tasks s ! t) = OneShot \<and>
      before_check (pc (tasks s ! t)) \<and> pc (tasks s' ! t) = Returned r
    \<longrightarrow> r = default_result (tasks s ! t) \<and>
        count_list (calls s') t = count_list (calls s) t)
   \<and> (t < length (tasks q) \<and> body (tasks q ! t) = OneShot \<and>
        pc (tasks q ! t) = ClockBlocked dl \<and> wait_cond_mutex q = None
      \<longrightarrow> map_option (\<lambda>q'. (pc (tasks q' ! t), calls q'))
            (run_sf [Stop, Wakeup (Task t),
                     Step t, Step t, Step t, Step t, Step t, Step t, Step t, Step t, Step t] q)
          = Some (Returned (default_result (tasks q ! t)), calls q))"
proof (intro conjI impI)
  assume a: "run_sf (Stop # evs) s = Some s' \<and> (\<forall>e\<in>set evs. \<not> starts e) \<and>
      t < length (tasks s) \<and> body (tasks s ! t) = OneShot \<and>
      before_check (pc (tasks s ! t)) \<and> pc (tasks s' ! t) = Returned r"
  then have c: "cancelled t (default_result (tasks s ! t)) (count_list (calls s) t) s'"
    using cancelled_after_stop by blast
  from c a show "r = default_result (tasks s ! t)"
    by (auto simp: cancelled_def before_check_def)
  from c show "count_list (calls s') t = count_list (calls s) t"
    by (simp add: cancelled_def)
next
  assume "t < length (tasks q) \<and> body (tasks q ! t) = OneShot \<and>
        pc (tasks q ! t) = ClockBlocked dl \<and> wait_cond_mutex q = None"
  then show "map_option (\<lambda>q'. (pc (tasks q' ! t), calls q'))
            (run_sf [Stop, Wakeup (Task t),
                     Step t, Step t, Step t, Step t, Step t, Step t, Step t, Step t, Step t] q)
          = Some (Returned (default_result (tasks q ! t)), calls q)"
    by (simp add: stop_sf_def clock_sf_def one_shot_task_def step_sf_def world_simps)
qed

theorem cancelled_one_shot_returns_default_witness:
  "map_option (\<lambda>s'. (pc (tasks s' ! 0), calls s'))
     (run_sf [Stop, Wakeup (Task 0),
              Step 0, Step 0, Step 0, Step 0, Step 0, Step 0, Step 0, Step 0, Step 0]
        blocked_one_shot)
     = Some (Returned (default_result (tasks blocked_one_shot ! 0)), calls blocked_one_shot)
   \<and> default_result (tasks blocked_one_shot ! 0) = 0"
  using cancelled_one_shot_returns_default
    [of "[Wakeup (Task 0),
          Step 0, Step 0, Step 0, Step 0, Step 0, Step 0, Step 0, Step 0, Step 0]"
        blocked_one_shot
        "the (run_sf [Stop, Wakeup (Task 0),
                      Step 0, Step 0, Step 0, Step 0, Step 0, Step 0, Step 0, Step 0, Step 0]
                blocked_one_shot)"
        0 0 blocked_one_shot 10]
  by (simp add: stopped_simps world_simps starts_def before_check_def blocked_one_shot_def)

subsection \<open>C9: the start operations reset the flag\<close>

text \<open>
  C9.  In the stopped-flag instance \<^verbatim>\<open>start_one_shot\<close> and \<^verbatim>\<open>start_periodic\<close> reset
  \<^verbatim>\<open>stopped\<close> before they launch the task, whatever its value was: a \<^verbatim>\<open>stop()\<close> issued
  before the start call leaves no trace, the object after the start call and every
  execution from there on are those without the \<^verbatim>\<open>stop()\<close>, and the run begins with
  the flag clear.
\<close>

theorem start_resets_stopped:
  "stopped (start_one_shot d r0 f s) = False
   \<and> stopped (start_periodic d r0 f s) = False
   \<and> start_one_shot d r0 f (stop_sf s) = start_one_shot d r0 f s
   \<and> start_periodic d r0 f (stop_sf s) = start_periodic d r0 f s
   \<and> run_sf (Stop # StartOneShot d r0 f # evs) s = run_sf (StartOneShot d r0 f # evs) s
   \<and> run_sf (Stop # StartPeriodic d r0 f # evs) s = run_sf (StartPeriodic d r0 f # evs) s"
  by (simp add: start_one_shot_def start_periodic_def stop_sf_def launch_def step_sf_def)

section \<open>\<^verbatim>\<open>Cpp_Timers\<close>: executions and the stop flag\<close>

text \<open>
  C4, the code at the failing input.  The claim: \<^verbatim>\<open>clock\<close> does not publish the elapsed
  signal before the duration has elapsed unless a stop was requested, and a spurious
  wake-up never lets the loop proceed early.

  \<^verbatim>\<open>Cpp_Timers::start_one_shot(10, f)\<close>; task 0 blocks in the timed wait of line 99 with
  deadline 10; a wake-up at time 0, with no stop requested, ends the wait, since line 99
  passes no predicate; \<^verbatim>\<open>is_elapsed\<close> is set and the callable is entered at time 0.

  The wake-up need not be spurious.  \<^verbatim>\<open>start_one_shot(10, f)\<close> and then
  \<^verbatim>\<open>start_one_shot(1, g)\<close> on the same object: at time 1 the clock of task 1 times out
  and calls \<^verbatim>\<open>notify_one()\<close> (line 102), which wakes task 0 out of its timed wait; task 0
  enters its callable at time 1, nine units before its deadline.
\<close>

theorem cpp_timers_clock_spurious_wakeup:
  "map_option (\<lambda>s. (map pc (tasks s), is_elapsed s, sys_now s))
     (run_ct [StartOneShot 10 0 (\<lambda>k. Value 7), Step 0, Step 0, Step 0]
        (new_Cpp_Timers u :: int Cpp_Timers))
     = Some ([ClockBlocked 10], False, 0)
   \<and> map_option (\<lambda>s. (map pc (tasks s), is_elapsed s, sys_now s, calls s))
     (run_ct [StartOneShot 10 0 (\<lambda>k. Value 7), Step 0, Step 0, Step 0,
              Wakeup (Task 0),
              Step 0, Step 0, Step 0, Step 0, Step 0, Step 0, Step 0, Step 0]
        (new_Cpp_Timers u :: int Cpp_Timers))
     = Some ([Invoking], True, 0, [0])
   \<and> map_option (\<lambda>s. (map pc (tasks s), sys_now s, calls s))
     (run_ct [StartOneShot 10 0 (\<lambda>k. Value 7), Step 0, Step 0, Step 0,
              StartOneShot 1 0 (\<lambda>k. Value 8), Step 1, Step 1, Step 1,
              Tick, Timeout 1, Step 1, Step 1, Step 1, Step 1,
              Wakeup (Task 0),
              Step 0, Step 0, Step 0, Step 0, Step 0, Step 0, Step 0, Step 0]
        (new_Cpp_Timers u :: int Cpp_Timers))
     = Some ([Invoking, WaitLock], 1, [0])"
  by (simp add: cpp_simps world_simps)

subsection \<open>The content of \<^verbatim>\<open>stop_flag\<close> while no task reads it\<close>











section \<open>C8: \<^verbatim>\<open>stop\<close> is idempotent, and changes nothing on an idle timer\<close>



end
